theory Spec2Isabelle
  imports Main "HOL-Library.Sublist"
begin

section \<open>Host strings\<close>

text \<open>
  A string of the host language is a sequence of UTF-16 code units. A code unit is kept as a
  natural number, so that the constants of the source (\<open>0x2028\<close>, \<open>0xFEFF\<close>, ...) are
  written as they are there. Offsets are integers: the source uses \<open>-1\<close> as a position.
\<close>

type_synonym jsstring = "nat list"

definition js :: "string \<Rightarrow> jsstring" where
  \<comment> \<open>an ASCII literal as a host string\<close>
  "js s = map of_char s"

definition charCodeAt :: "jsstring \<Rightarrow> int \<Rightarrow> nat option" where
  \<comment> \<open>\<open>None\<close> is the \<open>NaN\<close> of an index out of range\<close>
  "charCodeAt s i = (if 0 \<le> i \<and> i < int (length s) then Some (s ! nat i) else None)"

definition codePointAt :: "jsstring \<Rightarrow> int \<Rightarrow> nat option" where
  \<comment> \<open>\<open>None\<close> is \<open>undefined\<close>; a surrogate pair is read as one code point\<close>
  "codePointAt s i =
     (case charCodeAt s i of
        None \<Rightarrow> None
      | Some hi \<Rightarrow>
          (if 0xD800 \<le> hi \<and> hi \<le> 0xDBFF then
             (case charCodeAt s (i + 1) of
                None \<Rightarrow> Some hi
              | Some lo \<Rightarrow>
                  (if 0xDC00 \<le> lo \<and> lo \<le> 0xDFFF
                   then Some ((hi - 0xD800) * 0x400 + (lo - 0xDC00) + 0x10000)
                   else Some hi))
           else Some hi))"

definition relIndex :: "jsstring \<Rightarrow> int \<Rightarrow> nat" where
  \<comment> \<open>how \<open>slice\<close> reads an index: negative counts from the end, then clamped\<close>
  "relIndex s i =
     (if i < 0 then nat (max (int (length s) + i) 0) else nat (min i (int (length s))))"

definition slice :: "jsstring \<Rightarrow> int \<Rightarrow> int \<Rightarrow> jsstring" where
  "slice s a b = take (relIndex s b - relIndex s a) (drop (relIndex s a) s)"

definition sliceFrom :: "jsstring \<Rightarrow> int \<Rightarrow> jsstring" where
  \<comment> \<open>\<open>slice\<close> with one argument\<close>
  "sliceFrom s a = drop (relIndex s a) s"

section \<open>Text reconstruction\<close>

subsection \<open>Whitespace and line terminators around a cut\<close>

definition isNewLineChar :: "nat option \<Rightarrow> bool" where
  "isNewLineChar charCode =
     (charCode = Some 0x00A \<or> charCode = Some 0x000D \<or> charCode = Some 0x2028
      \<or> charCode = Some 0x2028)"

definition isEmptyLine :: "jsstring \<Rightarrow> int \<Rightarrow> bool" where
  "isEmptyLine str e = (e = 0 \<or> isNewLineChar (charCodeAt str (e - 1)))"

definition slurpSingleNewLineRight :: "jsstring \<Rightarrow> int \<Rightarrow> int" where
  "slurpSingleNewLineRight str pos =
     (let c0 = codePointAt str pos in
      if c0 = Some 0x000A \<or> c0 = Some 0x2028 \<or> c0 = Some 0x2029 then pos + 1
      else if c0 = Some 0x000D \<and> codePointAt str (pos + 1) = Some 0x000A then pos + 2
      else pos)"

definition whitespace :: "nat list" where
  "whitespace =
     [0x0020, 0x0009, 0x000B, 0x000C, 0x00A0,
      0x1680, 0x2000, 0x2001, 0x2002, 0x2003,
      0x2004, 0x2005, 0x2006, 0x2007, 0x2008,
      0x2009, 0x200A, 0x202F, 0x205F, 0x3000,
      0xFEFF]"

function slurpAllWhitespaceLeft :: "jsstring \<Rightarrow> int \<Rightarrow> int" where
  "slurpAllWhitespaceLeft str e =
     (let prev = e - 1 in
      if prev < 0 then e
      else (case charCodeAt str prev of
              None \<Rightarrow> e
            | Some charCode \<Rightarrow>
                if charCode \<notin> set whitespace then e else slurpAllWhitespaceLeft str prev))"
  by pat_completeness auto
termination
  by (relation "measure (\<lambda>(str, e). nat e)") auto

declare slurpAllWhitespaceLeft.simps [simp del]

text \<open>The line terminator sequences of the host grammar, which the source cites.\<close>

definition LF :: nat where "LF = 0x000A"
definition CR :: nat where "CR = 0x000D"
definition LS :: nat where "LS = 0x2028"
definition PS :: nat where "PS = 0x2029"

subsection \<open>The block tree\<close>

text \<open>
  The three interfaces of the source. A field the source marks optional (\<open>children?\<close>,
  \<open>elseIfs?\<close>, \<open>else?\<close>, \<open>takenBranch?\<close>) is an option, \<open>None\<close> being \<open>undefined\<close>.
  The four position fields every block and the \<open>Endif\<close> interface share are one record.
\<close>

record Span =
  s_start :: int
  s_end :: int
  s_line :: int
  s_column :: int

datatype IfBlock =
  IfBlock (i_span: Span) (i_expression: jsstring) (takenBranch: "int option")
    (i_children: "IfBlock list option") (elseIfs: "ElseIfBlock list option")
    (i_else: "ElseBlock option") (endif: Span) (dummy: bool)
and ElseIfBlock =
  ElseIfBlock (ei_span: Span) (ei_expression: jsstring) (ei_children: "IfBlock list option")
and ElseBlock =
  ElseBlock (el_span: Span) (el_children: "IfBlock list option")

definition nth_opt :: "'a list \<Rightarrow> int \<Rightarrow> 'a option" where
  \<comment> \<open>an array read; \<open>None\<close> is the \<open>undefined\<close> of an index out of range\<close>
  "nth_opt xs i = (if 0 \<le> i \<and> i < int (length xs) then Some (xs ! nat i) else None)"

lemma nth_opt_size:
  "nth_opt xs i = Some x \<Longrightarrow> size x < Suc (size_list size xs)"
  by (auto simp: nth_opt_def less_Suc_eq_le intro!: size_list_estimation' split: if_splits)

subsection \<open>The cut list\<close>

record Slice =
  sl_start :: int
  sl_end :: int

definition newCuts :: "Slice list" where
  \<comment> \<open>the constructor: the (0,0) sentinel\<close>
  "newCuts = [\<lparr>sl_start = 0, sl_end = 0\<rparr>]"

definition add :: "Slice list \<Rightarrow> int \<Rightarrow> int \<Rightarrow> Slice list option" where
  \<comment> \<open>\<open>None\<close>: the TypeError of reading \<open>prevCut.end\<close> in an empty array, which the
     sentinel rules out\<close>
  "add slices s e =
     (if slices = [] then None
      else if sl_end (last slices) = s
        then Some (butlast slices @ [(last slices)\<lparr>sl_end := e\<rparr>])
        else Some (slices @ [\<lparr>sl_start = s, sl_end = e\<rparr>]))"

definition isEmpty :: "Slice list \<Rightarrow> bool" where
  "isEmpty slices = (length slices = 1 \<and> sl_end (hd slices) = 0)"

text \<open>
  \<open>makeCuts\<close> reads \<open>takenBranch\<close> with comparisons that are all false at \<open>undefined\<close>,
  so \<open>None\<close> falls to the last two branches as a negative number does. Reading a field of
  an array element that is not there is a TypeError, the \<open>None\<close> of the result.
\<close>

function (sequential) makeCuts :: "IfBlock list \<Rightarrow> Slice list \<Rightarrow> Slice list option"
  and makeCutsIf :: "IfBlock \<Rightarrow> Slice list \<Rightarrow> Slice list option"
  and makeCutsChildren :: "IfBlock list option \<Rightarrow> Slice list \<Rightarrow> Slice list option"
where
  "makeCuts [] cuts = Some cuts"
| "makeCuts (b # bs) cuts = Option.bind (makeCutsIf b cuts) (makeCuts bs)"
| "makeCutsChildren None cuts = Some cuts"
| "makeCutsChildren (Some cs) cuts = makeCuts cs cuts"
| "makeCutsIf (IfBlock sp ex taken ch eis el en d) cuts =
     (if taken = Some 0 then
        Option.bind (add cuts (s_start sp) (s_end sp)) (\<lambda>c1.
        Option.bind (makeCutsChildren ch c1) (\<lambda>c2.
        Option.bind
          (case eis of
             Some es \<Rightarrow> map_option (\<lambda>e. s_start (ei_span e)) (nth_opt es 0)
           | None \<Rightarrow>
               (case el of
                  Some e \<Rightarrow> Some (s_start (el_span e))
                | None \<Rightarrow> Some (s_start en)))
          (\<lambda>st. add c2 st (s_end en))))
      else if (case taken of Some k \<Rightarrow> k \<ge> 1 | None \<Rightarrow> False) then
        (case eis of
           None \<Rightarrow> None
         | Some es \<Rightarrow>
             (case nth_opt es (the taken - 1) of
                None \<Rightarrow> None
              | Some (ElseIfBlock esp eex ech) \<Rightarrow>
                  Option.bind (add cuts (s_start sp) (s_end esp)) (\<lambda>c1.
                  Option.bind (makeCutsChildren ech c1) (\<lambda>c2.
                  Option.bind
                    (if int (length es) > the taken
                     then map_option (\<lambda>e. s_start (ei_span e)) (nth_opt es (the taken))
                     else (case el of
                             Some e \<Rightarrow> Some (s_start (el_span e))
                           | None \<Rightarrow> Some (s_start en)))
                    (\<lambda>st. add c2 st (s_end en))))))
      else
        (case el of
           Some (ElseBlock lsp lch) \<Rightarrow>
             Option.bind (add cuts (s_start sp) (s_end lsp)) (\<lambda>c1.
             Option.bind (makeCutsChildren lch c1) (\<lambda>c2.
             add c2 (s_start en) (s_end en)))
         | None \<Rightarrow> add cuts (s_start sp) (s_end en)))"
  by pat_completeness auto
termination
  by (relation "measure (case_sum (\<lambda>(bs, _). size_list size bs)
        (case_sum (\<lambda>(b, _). size b) (\<lambda>(ch, _). size_option (size_list size) ch)))")
     (auto dest: nth_opt_size)

subsection \<open>Emission\<close>

fun emit :: "jsstring \<Rightarrow> Slice list \<Rightarrow> jsstring \<Rightarrow> int \<Rightarrow> jsstring" where
  \<comment> \<open>the loop of \<open>apply\<close> over the slices, then the rest of the text\<close>
  "emit code [] resultCode pos = resultCode @ sliceFrom code pos"
| "emit code (sl # sls) resultCode pos =
     (let e = slurpAllWhitespaceLeft code (sl_start sl);
          resultCode' = resultCode @ slice code pos e;
          pos' = sl_end sl
      in emit code sls resultCode'
           (if isEmptyLine code e then slurpSingleNewLineRight code pos' else pos'))"

definition "apply" :: "jsstring \<Rightarrow> IfBlock list \<Rightarrow> jsstring option" where
  "apply code ifBlocks =
     (case makeCuts ifBlocks newCuts of
        None \<Rightarrow> None
      | Some cuts \<Rightarrow> if isEmpty cuts then Some code else Some (emit code cuts [] 0))"

section \<open>Scanning comments for directives\<close>

text \<open>
  The tokenizer is a library of the host. What the parser sees of it is the argument list of
  its \<open>onComment\<close> callback, one record for each comment.
\<close>

record Comment =
  c_isBlock :: bool
  c_text :: jsstring
  c_start :: int
  c_end :: int
  c_line :: int
  c_column :: int

datatype Tag = T_if | T_elseif | T_else | T_endif

definition isLineTerminator :: "nat \<Rightarrow> bool" where
  \<comment> \<open>what \<open>.\<close> refuses and what \<open>^\<close> and \<open>$\<close> look for under the \<open>m\<close> flag\<close>
  "isLineTerminator c = (c = 0x000A \<or> c = 0x000D \<or> c = 0x2028 \<or> c = 0x2029)"

definition reSpace :: "nat list" where
  \<comment> \<open>the class \<open>\s\<close>\<close>
  "reSpace =
     [0x0009, 0x000A, 0x000B, 0x000C, 0x000D, 0x0020, 0x00A0, 0x1680,
      0x2000, 0x2001, 0x2002, 0x2003, 0x2004, 0x2005, 0x2006, 0x2007, 0x2008, 0x2009, 0x200A,
      0x2028, 0x2029, 0x202F, 0x205F, 0x3000, 0xFEFF]"

definition isSpace :: "nat \<Rightarrow> bool" where
  "isSpace c = (c \<in> set reSpace)"

definition atEnd :: "bool \<Rightarrow> jsstring \<Rightarrow> bool" where
  \<comment> \<open>\<open>$\<close>: the end of the input, and under \<open>m\<close> also the place before a line terminator\<close>
  "atEnd m r = (case r of [] \<Rightarrow> True | c # _ \<Rightarrow> m \<and> isLineTerminator c)"

definition reTail :: "bool \<Rightarrow> jsstring \<Rightarrow> jsstring option" where
  \<comment> \<open>\<open>(?:$|\s+$|\s+(.+)$)\<close> at the input left after the tag, the alternatives in their
     order. The result is \<open>match[2] ?? ''\<close>.\<close>
  "reTail m r =
     (if atEnd m r then Some []
      else
        (let ws = takeWhile isSpace r; r1 = dropWhile isSpace r in
         if ws = [] then None
         else if r1 = [] \<or> (m \<and> (\<exists>c \<in> set (tl ws). isLineTerminator c)) then Some []
         else
           (let e = takeWhile (\<lambda>c. \<not> isLineTerminator c) r1;
                r2 = dropWhile (\<lambda>c. \<not> isLineTerminator c) r1
            in if r2 = [] \<or> m then Some e else None)))"

definition tagWord :: "Tag \<Rightarrow> jsstring" where
  "tagWord t =
     (case t of T_if \<Rightarrow> js ''if'' | T_elseif \<Rightarrow> js ''elseif''
      | T_else \<Rightarrow> js ''else'' | T_endif \<Rightarrow> js ''endif'')"

fun reTag :: "bool \<Rightarrow> Tag list \<Rightarrow> jsstring \<Rightarrow> (Tag \<times> jsstring) option" where
  \<comment> \<open>\<open>(if|elseif|else|endif)\<close> and what follows it: the first alternative with which the
     rest of the pattern matches\<close>
  "reTag m [] r = None"
| "reTag m (t # ts) r =
     (if take (length (tagWord t)) r = tagWord t then
        (case reTail m (drop (length (tagWord t)) r) of
           Some raw \<Rightarrow> Some (t, raw)
         | None \<Rightarrow> reTag m ts r)
      else reTag m ts r)"

definition reAt :: "bool \<Rightarrow> jsstring \<Rightarrow> (Tag \<times> jsstring) option" where
  \<comment> \<open>one attempt where \<open>^\<close> holds: \<open>\s*\*?\s*#\<close> for a block comment (with the flag
     \<open>m\<close>), \<open>\s*#\<close> for a line comment (without)\<close>
  "reAt isBlock r =
     (let r1 = dropWhile isSpace r;
          r2 = (if isBlock then (case r1 of c # cs \<Rightarrow> if c = 0x2A then cs else r1 | [] \<Rightarrow> r1)
                else r1);
          r3 = (if isBlock then dropWhile isSpace r2 else r2)
      in case r3 of
           [] \<Rightarrow> None
         | c # cs \<Rightarrow> if c = 0x23 then reTag isBlock [T_if, T_elseif, T_else, T_endif] cs else None)"

fun reScan :: "bool \<Rightarrow> jsstring \<Rightarrow> (Tag \<times> jsstring) option" where
  \<comment> \<open>\<open>exec\<close> under the flag \<open>m\<close>: the start positions from left to right, \<open>^\<close> holding
     at position 0 and after every line terminator\<close>
  "reScan lineStart [] = (if lineStart then reAt True [] else None)"
| "reScan lineStart (c # cs) =
     (case (if lineStart then reAt True (c # cs) else None) of
        Some x \<Rightarrow> Some x
      | None \<Rightarrow> reScan (isLineTerminator c) cs)"

definition matchDirective :: "bool \<Rightarrow> jsstring \<Rightarrow> (Tag \<times> jsstring) option" where
  \<comment> \<open>the two \<open>exec\<close> calls of \<open>onComment\<close>; without \<open>m\<close> only position 0 satisfies \<open>^\<close>\<close>
  "matchDirective isBlock text = (if isBlock then reScan True text else reAt False text)"

section \<open>Guard text\<close>

text \<open>
  The expression parser is a library of the host, a parameter here: it throws (\<open>Inl\<close> with
  the message of the error) or returns the statements of the program, each with its node
  type and span. An expression statement has a child, its expression, with a span of its
  own (\<open>n_expression\<close>); the source does not read it.
\<close>

record Node =
  n_type :: string
  n_start :: int
  n_end :: int
  n_expression :: "(int \<times> int) option"

type_synonym acorn = "jsstring \<Rightarrow> string + Node list"

definition parseExpression :: "acorn \<Rightarrow> jsstring \<Rightarrow> string + jsstring" where
  "parseExpression acornParse exprCode =
     (case acornParse exprCode of
        Inl message \<Rightarrow> Inl message
      | Inr body \<Rightarrow>
          (case body of
             [] \<Rightarrow> Inl ''Expected exactly one expression.''
           | expr # rest \<Rightarrow>
               if n_type expr \<noteq> ''ExpressionStatement''
                 then Inl (''Expected an expression, found '' @ n_type expr @ ''.'')
               else if length body \<noteq> 1 then Inl ''Expected exactly one expression.''
               else Inr (slice exprCode (n_start expr) (n_end expr))))"

section \<open>The block parser\<close>

datatype Subtype =
  invalid_expression | missing_endif | elseif_without_if | elseif_after_else
  | else_without_if | duplicate_else | endif_without_if

record CondCompErrorEntry =
  e_type :: string
  e_subtype :: Subtype
  e_message :: string
  e_line :: int
  e_column :: int

definition parseError :: "Subtype \<Rightarrow> string \<Rightarrow> int \<Rightarrow> int \<Rightarrow> CondCompErrorEntry" where
  "parseError st msg l c =
     \<lparr>e_type = ''parse'', e_subtype = st, e_message = msg, e_line = l, e_column = c\<rparr>"

text \<open>
  The parser builds its blocks in place: a block is on a stack and in its parent's
  \<open>children\<close> at once, and is written through either. The blocks therefore live in a
  store, an array of objects addressed by index, and the fields that hold blocks hold
  addresses. The stacks are arrays with the top at the end, as in the source.
\<close>

datatype Obj =
  IfObj (o_span: Span) (o_expression: jsstring) (o_children: "nat list option")
    (o_elseIfs: "nat list option") (o_else: "nat option") (o_endif: Span) (o_dummy: bool)
| ElseIfObj (o_span: Span) (o_expression: jsstring) (o_children: "nat list option")
| ElseObj (o_span: Span) (o_children: "nat list option")

record PState =
  heap :: "Obj list"
  toplevel :: "nat list"
  ifStack :: "nat list"
  scopeStack :: "nat list"
  errors :: "CondCompErrorEntry list"

definition initial :: PState where
  "initial = \<lparr>heap = [], toplevel = [], ifStack = [], scopeStack = [], errors = []\<rparr>"

definition deref :: "Obj list \<Rightarrow> nat \<Rightarrow> Obj option" where
  "deref h a = (if a < length h then Some (h ! a) else None)"

definition alloc :: "Obj \<Rightarrow> PState \<Rightarrow> nat \<times> PState" where
  "alloc ob st = (length (heap st), st\<lparr>heap := heap st @ [ob]\<rparr>)"

definition pushChild :: "nat \<Rightarrow> Obj \<Rightarrow> Obj" where
  \<comment> \<open>\<open>scope.children = scope.children ?? []; scope.children.push(ifBlock)\<close>\<close>
  "pushChild a ob =
     (case ob of
        IfObj sp ex ch eis el en d \<Rightarrow>
          IfObj sp ex (Some ((case ch of None \<Rightarrow> [] | Some as \<Rightarrow> as) @ [a])) eis el en d
      | ElseIfObj sp ex ch \<Rightarrow> ElseIfObj sp ex (Some ((case ch of None \<Rightarrow> [] | Some as \<Rightarrow> as) @ [a]))
      | ElseObj sp ch \<Rightarrow> ElseObj sp (Some ((case ch of None \<Rightarrow> [] | Some as \<Rightarrow> as) @ [a])))"

definition pushElseIf :: "nat \<Rightarrow> Obj \<Rightarrow> Obj" where
  \<comment> \<open>\<open>currentIfBlock.elseIfs = currentIfBlock.elseIfs ?? []; ... .push(elseIfBlock)\<close>\<close>
  "pushElseIf a ob =
     (case ob of
        IfObj sp ex ch eis el en d \<Rightarrow>
          IfObj sp ex ch (Some ((case eis of None \<Rightarrow> [] | Some as \<Rightarrow> as) @ [a])) el en d
      | _ \<Rightarrow> ob)"

definition setElse :: "nat \<Rightarrow> Obj \<Rightarrow> Obj" where
  "setElse a ob =
     (case ob of IfObj sp ex ch eis el en d \<Rightarrow> IfObj sp ex ch eis (Some a) en d | _ \<Rightarrow> ob)"

definition setEndif :: "Span \<Rightarrow> Obj \<Rightarrow> Obj" where
  "setEndif en' ob =
     (case ob of IfObj sp ex ch eis el en d \<Rightarrow> IfObj sp ex ch eis el en' d | _ \<Rightarrow> ob)"

definition hasElse :: "Obj list \<Rightarrow> nat \<Rightarrow> bool" where
  \<comment> \<open>\<open>currentIfBlock.else !== undefined\<close>\<close>
  "hasElse h a = (case deref h a of Some (IfObj sp ex ch eis el en d) \<Rightarrow> el \<noteq> None | _ \<Rightarrow> False)"

definition update :: "nat \<Rightarrow> (Obj \<Rightarrow> Obj) \<Rightarrow> PState \<Rightarrow> PState" where
  \<comment> \<open>a write through a reference\<close>
  "update a f st =
     (if a < length (heap st) then st\<lparr>heap := (heap st)[a := f (heap st ! a)]\<rparr> else st)"

definition pushIf :: "nat \<Rightarrow> PState \<Rightarrow> PState" where
  "pushIf a st =
     (let st1 = (if scopeStack st = [] then st else update (last (scopeStack st)) (pushChild a) st)
      in st1\<lparr>scopeStack := scopeStack st1 @ [a], ifStack := ifStack st1 @ [a]\<rparr>)"

definition setScope :: "nat \<Rightarrow> PState \<Rightarrow> PState" where
  \<comment> \<open>\<open>scopeStack[scopeStack.length - 1] = block\<close>; on an empty array the write at index
     \<open>-1\<close> adds no element\<close>
  "setScope a st =
     (if scopeStack st = [] then st else st\<lparr>scopeStack := butlast (scopeStack st) @ [a]\<rparr>)"

definition addError :: "CondCompErrorEntry \<Rightarrow> PState \<Rightarrow> PState" where
  "addError e st = st\<lparr>errors := errors st @ [e]\<rparr>"

definition commentSpan :: "Comment \<Rightarrow> Span" where
  "commentSpan c =
     \<lparr>s_start = c_start c, s_end = c_end c, s_line = c_line c, s_column = c_column c\<rparr>"

definition noEndif :: Span where
  "noEndif = \<lparr>s_start = - 1, s_end = - 1, s_line = - 1, s_column = - 1\<rparr>"

definition setExpression ::
  "acorn \<Rightarrow> jsstring \<Rightarrow> string \<Rightarrow> Comment \<Rightarrow> PState \<Rightarrow> jsstring \<times> PState" where
  \<comment> \<open>the expression the new block ends with (it starts as \<open>''\<close>), and the state\<close>
  "setExpression acornParse rawExpression blockType c st =
     (if rawExpression = [] then
        ([], addError (parseError invalid_expression
                (''Found #'' @ blockType @ '' without expression.'') (c_line c) (c_column c)) st)
      else
        (case parseExpression acornParse rawExpression of
           Inl message \<Rightarrow>
             ([], addError (parseError invalid_expression message (c_line c) (c_column c)) st)
         | Inr code \<Rightarrow> (code, st)))"

definition makeDummyIf :: "Comment \<Rightarrow> Obj" where
  "makeDummyIf c = IfObj (commentSpan c) [] None None None noEndif True"

definition currentIf :: "Subtype \<Rightarrow> string \<Rightarrow> Comment \<Rightarrow> PState \<Rightarrow> nat \<times> PState" where
  \<comment> \<open>the top of the if-stack, or a new dummy \<open>#if\<close> with the error given\<close>
  "currentIf sub msg c st =
     (if ifStack st = [] then
        (let st1 = addError (parseError sub msg (c_line c) (c_column c)) st;
             (a, st2) = alloc (makeDummyIf c) st1
         in (a, pushIf a st2))
      else (last (ifStack st), st))"

definition onComment :: "acorn \<Rightarrow> PState \<Rightarrow> Comment \<Rightarrow> PState" where
  "onComment acornParse st c =
     (case matchDirective (c_isBlock c) (c_text c) of
        None \<Rightarrow> st
      | Some (tag, rawExpression) \<Rightarrow>
          (case tag of
             T_if \<Rightarrow>
               (let (ex, st1) = setExpression acornParse rawExpression ''if'' c st;
                    (a, st2) = alloc (IfObj (commentSpan c) ex None None None noEndif False) st1
                in pushIf a st2)
           | T_elseif \<Rightarrow>
               (let (ex, st1) = setExpression acornParse rawExpression ''elseif'' c st;
                    (b, st2) = alloc (ElseIfObj (commentSpan c) ex None) st1;
                    (cur, st3) = currentIf elseif_without_if
                       ''Found #elseif without matching #if.'' c st2;
                    st4 = (if hasElse (heap st3) cur
                           then addError (parseError elseif_after_else
                                  ''Found invalid #elseif after #else.'' (c_line c) (c_column c)) st3
                           else st3)
                in setScope b (update cur (pushElseIf b) st4))
           | T_else \<Rightarrow>
               (let (b, st1) = alloc (ElseObj (commentSpan c) None) st;
                    (cur, st2) = currentIf else_without_if
                       ''Found #else without matching #if or #elseif.'' c st1;
                    st3 = (if hasElse (heap st2) cur
                           then addError (parseError duplicate_else
                                  ''Found duplicate #else.'' (c_line c) (c_column c)) st2
                           else st2)
                in setScope b (update cur (setElse b) st3))
           | T_endif \<Rightarrow>
               (if ifStack st = [] then
                  addError (parseError endif_without_if
                    ''Found #endif without matching #if,#elseif, or #else.''
                    (c_line c) (c_column c)) st
                else
                  (let cur = last (ifStack st);
                       st1 = st\<lparr>ifStack := butlast (ifStack st)\<rparr>;
                       st2 = update cur (setEndif (commentSpan c)) st1;
                       st3 = st2\<lparr>scopeStack := butlast (scopeStack st2)\<rparr>
                   in if scopeStack st3 = [] then st3\<lparr>toplevel := toplevel st3 @ [cur]\<rparr>
                      else st3))))"

definition scan :: "acorn \<Rightarrow> Comment list \<Rightarrow> PState" where
  \<comment> \<open>\<open>for (let _ of tokenizer) { }\<close>: the callback once for each comment, in order\<close>
  "scan acornParse cs = foldl (onComment acornParse) initial cs"

definition missingEndif :: "Obj list \<Rightarrow> nat \<Rightarrow> CondCompErrorEntry list" where
  "missingEndif h a =
     (case deref h a of
        None \<Rightarrow> []
      | Some ob \<Rightarrow>
          [parseError missing_endif ''Found #if without matching #elseif.''
             (s_line (o_span ob)) (s_column (o_span ob))])"

definition finalErrors :: "PState \<Rightarrow> CondCompErrorEntry list" where
  \<comment> \<open>the loop over \<open>ifStack\<close> after the scan, from index 0\<close>
  "finalErrors st = errors st @ concat (map (missingEndif (heap st)) (ifStack st))"

text \<open>
  Reading the tree out of the store, for the functions that walk it. The fuel bounds the
  depth; an address that is not there, or an object of the wrong kind, gives \<open>None\<close>.
\<close>

fun reifyIf :: "nat \<Rightarrow> Obj list \<Rightarrow> nat \<Rightarrow> IfBlock option"
  and reifyElseIf :: "nat \<Rightarrow> Obj list \<Rightarrow> nat \<Rightarrow> ElseIfBlock option"
  and reifyElse :: "nat \<Rightarrow> Obj list \<Rightarrow> nat \<Rightarrow> ElseBlock option"
  and reifyIfs :: "nat \<Rightarrow> Obj list \<Rightarrow> nat list option \<Rightarrow> IfBlock list option option"
where
  "reifyIf 0 h a = None"
| "reifyIf (Suc n) h a =
     (case deref h a of
        Some (IfObj sp ex ch eis el en d) \<Rightarrow>
          (case reifyIfs n h ch of
             None \<Rightarrow> None
           | Some ch' \<Rightarrow>
               (case (case eis of
                        None \<Rightarrow> Some None
                      | Some as \<Rightarrow> map_option Some (those (map (reifyElseIf n h) as))) of
                  None \<Rightarrow> None
                | Some eis' \<Rightarrow>
                    (case (case el of
                             None \<Rightarrow> Some None
                           | Some b \<Rightarrow> map_option Some (reifyElse n h b)) of
                       None \<Rightarrow> None
                     | Some el' \<Rightarrow> Some (IfBlock sp ex None ch' eis' el' en d))))
      | _ \<Rightarrow> None)"
| "reifyElseIf 0 h a = None"
| "reifyElseIf (Suc n) h a =
     (case deref h a of
        Some (ElseIfObj sp ex ch) \<Rightarrow> map_option (ElseIfBlock sp ex) (reifyIfs n h ch)
      | _ \<Rightarrow> None)"
| "reifyElse 0 h a = None"
| "reifyElse (Suc n) h a =
     (case deref h a of
        Some (ElseObj sp ch) \<Rightarrow> map_option (ElseBlock sp) (reifyIfs n h ch)
      | _ \<Rightarrow> None)"
| "reifyIfs n h None = Some None"
| "reifyIfs n h (Some as) = map_option Some (those (map (reifyIf n h) as))"

definition parse :: "acorn \<Rightarrow> Comment list \<Rightarrow> CondCompErrorEntry list + IfBlock list option" where
  \<comment> \<open>\<open>Inl\<close>: the entries of the CondCompParseError thrown\<close>
  "parse acornParse cs =
     (let st = scan acornParse cs; errs = finalErrors st in
      if errs \<noteq> [] then Inl errs
      else Inr (those (map (reifyIf (Suc (length (heap st))) (heap st)) (toplevel st))))"

section \<open>The batch evaluator\<close>

text \<open>
  \<open>compileIfs\<close> writes one program for the whole tree and the host runs it. The host is a
  parameter: whether it takes a guard text inside a function body of the mode
  (\<open>accepts\<close>; the program of the synchronous mode has no \<open>async\<close> function, where the
  host grammar has no suspension point), what it throws when it refuses the program, what
  running a guard text in a context does (it throws a value or yields a truth value, and
  leaves a context), what happens to the context while the program waits at an \<open>await\<close>
  (\<open>suspend\<close>: the jobs that the guards have queued run), and which thrown values are
  \<open>null\<close> or \<open>undefined\<close> (\<open>nullish\<close>: reading a property of one is a TypeError). The
  functions below are what the program text of \<open>compileIf\<close> and \<open>compileIfs\<close> does when
  run, statement by statement.

  A value thrown is a value of a guard, or a \<open>{cause, line, column}\<close> object of the
  program around one.
\<close>

datatype 'e Thrown = Orig 'e | Wrapped (cause: "'e Thrown") (t_line: int) (t_column: int)

primrec origin :: "'e Thrown \<Rightarrow> 'e" where
  \<comment> \<open>the value of the guard inside the objects around it\<close>
  "origin (Orig e) = e"
| "origin (Wrapped x l k) = origin x"

datatype EvaluationResultEntry =
  Entry (branch: int) (children: "EvaluationResultEntry list option")

type_synonym ('c, 'e) guard = "jsstring \<Rightarrow> 'c \<Rightarrow> ('e + bool) \<times> 'c"

text \<open>
  Next to its value and the context it leaves, a run returns what it did, in the order in
  which it did it: the guards it evaluated (for each the span of its directive, its text,
  and the context in which it ran) and the \<open>await\<close>s at which it waited (for each the
  context in which the wait began). Nothing reads this list; it is there for the properties
  to speak of.
\<close>

type_synonym 'c step = "Span \<times> jsstring \<times> 'c"

datatype 'c event = Evaluated "'c step" | Suspended 'c

definition awaited :: "('c \<Rightarrow> 'c) option \<Rightarrow> 'r \<times> 'c \<times> 'c event list \<Rightarrow> 'r \<times> 'c \<times> 'c event list" where
  \<comment> \<open>\<open>${sync ? '' : 'await'} (...)()\<close>: in the asynchronous program the value of a call,
     returned or thrown, arrives after a wait; the synchronous program has no \<open>await\<close>\<close>
  "awaited aw x =
     (case aw of
        None \<Rightarrow> x
      | Some f \<Rightarrow> (case x of (r, c, tr) \<Rightarrow> (r, f c, tr @ [Suspended c])))"

function (sequential) runIfs :: "('c, 'e) guard \<Rightarrow> ('c \<Rightarrow> 'c) option \<Rightarrow> IfBlock list \<Rightarrow> 'c
      \<Rightarrow> ('e Thrown + EvaluationResultEntry list) \<times> 'c \<times> 'c event list"
  and runIf :: "('c, 'e) guard \<Rightarrow> ('c \<Rightarrow> 'c) option \<Rightarrow> IfBlock \<Rightarrow> 'c
      \<Rightarrow> ('e Thrown + EvaluationResultEntry) \<times> 'c \<times> 'c event list"
  and runBody :: "('c, 'e) guard \<Rightarrow> ('c \<Rightarrow> 'c) option \<Rightarrow> IfBlock \<Rightarrow> 'c
      \<Rightarrow> ('e Thrown + EvaluationResultEntry) \<times> 'c \<times> 'c event list"
  and runChildren :: "('c, 'e) guard \<Rightarrow> ('c \<Rightarrow> 'c) option \<Rightarrow> IfBlock list option \<Rightarrow> 'c
      \<Rightarrow> ('e Thrown + EvaluationResultEntry list option) \<times> 'c \<times> 'c event list"
  and runElseIfs :: "('c, 'e) guard \<Rightarrow> ('c \<Rightarrow> 'c) option \<Rightarrow> ElseIfBlock list \<Rightarrow> int \<Rightarrow> 'c
      \<Rightarrow> ('e Thrown + EvaluationResultEntry option) \<times> 'c \<times> 'c event list"
  and runElseIfsOpt :: "('c, 'e) guard \<Rightarrow> ('c \<Rightarrow> 'c) option \<Rightarrow> ElseIfBlock list option \<Rightarrow> 'c
      \<Rightarrow> ('e Thrown + EvaluationResultEntry option) \<times> 'c \<times> 'c event list"
  and runElse :: "('c, 'e) guard \<Rightarrow> ('c \<Rightarrow> 'c) option \<Rightarrow> ElseBlock option \<Rightarrow> 'c
      \<Rightarrow> ('e Thrown + EvaluationResultEntry list option) \<times> 'c \<times> 'c event list"
where
  \<comment> \<open>an array literal of the blocks' programs: left to right, the first throw ends it\<close>
  "runIfs g aw [] c = (Inr [], c, [])"
| "runIfs g aw (b # bs) c =
     (case runIf g aw b c of
        (Inl x, c1, tr1) \<Rightarrow> (Inl x, c1, tr1)
      | (Inr r, c1, tr1) \<Rightarrow>
          (case runIfs g aw bs c1 of
             (Inl x, c2, tr2) \<Rightarrow> (Inl x, c2, tr1 @ tr2)
           | (Inr rs, c2, tr2) \<Rightarrow> (Inr (r # rs), c2, tr1 @ tr2)))"
  \<comment> \<open>\<open>compileChildren\<close>: no \<open>children\<close> key where the block has no children\<close>
| "runChildren g aw None c = (Inr None, c, [])"
| "runChildren g aw (Some cs) c =
     (case runIfs g aw cs c of
        (Inl x, c1, tr) \<Rightarrow> (Inl x, c1, tr)
      | (Inr rs, c1, tr) \<Rightarrow> (Inr (Some rs), c1, tr))"
  \<comment> \<open>the program of one block, \<open>compileIf\<close>: a function called on the spot and, in the
     asynchronous program, awaited\<close>
| "runIf g aw b c = awaited aw (runBody g aw b c)"
  \<comment> \<open>the body of that function: the \<open>try\<close> of the \<open>#if\<close> guard holds the \<open>return\<close>
     with the children's programs, so what they throw passes through its \<open>catch\<close>\<close>
| "runBody g aw (IfBlock sp ex tk ch eis el en d) c =
     (case g ex c of
        (Inl e, c1) \<Rightarrow>
          (Inl (Wrapped (Orig e) (s_line sp) (s_column sp)), c1, [Evaluated (sp, ex, c)])
      | (Inr True, c1) \<Rightarrow>
          (case runChildren g aw ch c1 of
             (Inl x, c2, tr) \<Rightarrow>
               (Inl (Wrapped x (s_line sp) (s_column sp)), c2, Evaluated (sp, ex, c) # tr)
           | (Inr rs, c2, tr) \<Rightarrow> (Inr (Entry 0 rs), c2, Evaluated (sp, ex, c) # tr))
      | (Inr False, c1) \<Rightarrow>
          (case runElseIfsOpt g aw eis c1 of
             (Inl x, c2, tr) \<Rightarrow> (Inl x, c2, Evaluated (sp, ex, c) # tr)
           | (Inr (Some r), c2, tr) \<Rightarrow> (Inr r, c2, Evaluated (sp, ex, c) # tr)
           | (Inr None, c2, tr) \<Rightarrow>
               (case runElse g aw el c2 of
                  (Inl x, c3, tr') \<Rightarrow> (Inl x, c3, Evaluated (sp, ex, c) # tr @ tr')
                | (Inr rs, c3, tr') \<Rightarrow>
                    (Inr (Entry (- 1) rs), c3, Evaluated (sp, ex, c) # tr @ tr'))))"
  \<comment> \<open>the \<open>try\<close> statements of the \<open>#elseif\<close> guards, \<open>index + 1\<close> being the branch\<close>
| "runElseIfs g aw [] k c = (Inr None, c, [])"
| "runElseIfs g aw (ElseIfBlock sp ex ch # es) k c =
     (case g ex c of
        (Inl e, c1) \<Rightarrow>
          (Inl (Wrapped (Orig e) (s_line sp) (s_column sp)), c1, [Evaluated (sp, ex, c)])
      | (Inr True, c1) \<Rightarrow>
          (case runChildren g aw ch c1 of
             (Inl x, c2, tr) \<Rightarrow>
               (Inl (Wrapped x (s_line sp) (s_column sp)), c2, Evaluated (sp, ex, c) # tr)
           | (Inr rs, c2, tr) \<Rightarrow> (Inr (Some (Entry k rs)), c2, Evaluated (sp, ex, c) # tr))
      | (Inr False, c1) \<Rightarrow>
          (case runElseIfs g aw es (k + 1) c1 of
             (r, c2, tr) \<Rightarrow> (r, c2, Evaluated (sp, ex, c) # tr)))"
| "runElseIfsOpt g aw None c = (Inr None, c, [])"
| "runElseIfsOpt g aw (Some es) c = runElseIfs g aw es 1 c"
  \<comment> \<open>the last \<open>return\<close>, outside every \<open>try\<close>\<close>
| "runElse g aw None c = (Inr None, c, [])"
| "runElse g aw (Some (ElseBlock sp ch)) c = runChildren g aw ch c"
  by pat_completeness auto
termination
  by (relation "measure (case_sum
        (case_sum (\<lambda>(g, aw, bs, c). 3 * size_list size bs)
          (case_sum (\<lambda>(g, aw, b, c). 3 * size b + 1) (\<lambda>(g, aw, b, c). 3 * size b)))
        (case_sum
          (case_sum (\<lambda>(g, aw, ch, c). 3 * size_option (size_list size) ch)
            (\<lambda>(g, aw, es, k, c). 3 * size_list size es))
          (case_sum (\<lambda>(g, aw, eis, c). 3 * size_option (size_list size) eis)
            (\<lambda>(g, aw, el, c). 3 * size_option size el))))")
     auto

text \<open>The guards of a tree in the order of the program text.\<close>

fun guards :: "IfBlock list \<Rightarrow> (Span \<times> jsstring) list"
  and guardsIf :: "IfBlock \<Rightarrow> (Span \<times> jsstring) list"
  and guardsChildren :: "IfBlock list option \<Rightarrow> (Span \<times> jsstring) list"
  and guardsElseIfs :: "ElseIfBlock list \<Rightarrow> (Span \<times> jsstring) list"
  and guardsElseIfsOpt :: "ElseIfBlock list option \<Rightarrow> (Span \<times> jsstring) list"
  and guardsElse :: "ElseBlock option \<Rightarrow> (Span \<times> jsstring) list"
where
  "guards [] = []"
| "guards (b # bs) = guardsIf b @ guards bs"
| "guardsChildren None = []"
| "guardsChildren (Some cs) = guards cs"
| "guardsIf (IfBlock sp ex tk ch eis el en d) =
     (sp, ex) # guardsChildren ch @ guardsElseIfsOpt eis @ guardsElse el"
| "guardsElseIfs [] = []"
| "guardsElseIfs (ElseIfBlock sp ex ch # es) = (sp, ex) # guardsChildren ch @ guardsElseIfs es"
| "guardsElseIfsOpt None = []"
| "guardsElseIfsOpt (Some es) = guardsElseIfs es"
| "guardsElse None = []"
| "guardsElse (Some (ElseBlock sp ch)) = guardsChildren ch"

record ('c, 'e) Host =
  tokenizer :: "jsstring \<Rightarrow> 'e + Comment list"
  acornParse :: acorn
  accepts :: "bool \<Rightarrow> jsstring \<Rightarrow> bool"
  syntaxError :: 'e
  evalGuard :: "bool \<Rightarrow> ('c, 'e) guard"
  suspend :: "'c \<Rightarrow> 'c"
  nullish :: "'e \<Rightarrow> bool"

definition awaitOf :: "('c, 'e) Host \<Rightarrow> bool \<Rightarrow> ('c \<Rightarrow> 'c) option" where
  \<comment> \<open>the \<open>await\<close> of the mode: \<open>sync ? '' : 'await'\<close>\<close>
  "awaitOf h sync = (if sync then None else Some (suspend h))"

definition runInContext :: "('c, 'e) Host \<Rightarrow> bool \<Rightarrow> IfBlock list \<Rightarrow> 'c
    \<Rightarrow> ('e + ('e Thrown + EvaluationResultEntry list)) \<times> 'c \<times> 'c event list" where
  \<comment> \<open>the program of \<open>compileIfs\<close>: refused as a whole, or run, its \<open>catch\<close> returning
     what was thrown in place of the array\<close>
  "runInContext h sync ifBlocks c =
     (if list_all (\<lambda>(sp, ex). accepts h sync ex) (guards ifBlocks)
      then (case runIfs (evalGuard h sync) (awaitOf h sync) ifBlocks c of
              (r, c', tr) \<Rightarrow> (Inr r, c', tr))
      else (Inl (syntaxError h), c, []))"

datatype 'e Failure =
  CondCompParseError "CondCompErrorEntry list"
| CondCompEvalError (f_line: int) (f_column: int) (f_error: "'e Thrown")
| TypeError
| TokenizerError 'e

function (sequential) bindResults ::
    "IfBlock list \<Rightarrow> EvaluationResultEntry list \<Rightarrow> IfBlock list option"
  and bindIf :: "IfBlock \<Rightarrow> EvaluationResultEntry \<Rightarrow> IfBlock option"
  and bindChildren ::
    "IfBlock list option \<Rightarrow> EvaluationResultEntry list \<Rightarrow> IfBlock list option option"
where
  \<comment> \<open>the loop of \<open>setEvaluationResults\<close> over the result array; a result with no block, or
     a branch with no \<open>#elseif\<close>, is a TypeError, the \<open>None\<close>\<close>
  "bindResults bs [] = Some bs"
| "bindResults [] (r # rs) = None"
| "bindResults (b # bs) (r # rs) =
     (case bindIf b r of
        None \<Rightarrow> None
      | Some b' \<Rightarrow> map_option ((#) b') (bindResults bs rs))"
| "bindChildren None rs = (if rs = [] then Some None else None)"
| "bindChildren (Some cs) rs = map_option Some (bindResults cs rs)"
| "bindIf (IfBlock sp ex tk ch eis el en d) (Entry br childrenResults) =
     (case childrenResults of
        None \<Rightarrow> Some (IfBlock sp ex (Some br) ch eis el en d)
      | Some crs \<Rightarrow>
          if br = 0 then
            map_option (\<lambda>ch'. IfBlock sp ex (Some br) ch' eis el en d) (bindChildren ch crs)
          else if br > 0 then
            (case eis of
               None \<Rightarrow> None
             | Some es \<Rightarrow>
                 (case nth_opt es (br - 1) of
                    None \<Rightarrow> None
                  | Some (ElseIfBlock esp eex ech) \<Rightarrow>
                      map_option
                        (\<lambda>ech'. IfBlock sp ex (Some br) ch
                           (Some (es[nat (br - 1) := ElseIfBlock esp eex ech'])) el en d)
                        (bindChildren ech crs)))
          else
            (case el of
               Some (ElseBlock lsp lch) \<Rightarrow>
                 map_option (\<lambda>lch'. IfBlock sp ex (Some br) ch eis (Some (ElseBlock lsp lch')) en d)
                   (bindChildren lch crs)
             | None \<Rightarrow> Some (IfBlock sp ex (Some br) ch eis el en d)))"
  by pat_completeness auto
termination
  by (relation "measure (case_sum (\<lambda>(bs, _). size_list size bs)
        (case_sum (\<lambda>(b, _). size b) (\<lambda>(ch, _). size_option (size_list size) ch)))")
     (auto dest: nth_opt_size)

definition makeEvaluationError :: "('c, 'e) Host \<Rightarrow> 'e Thrown \<Rightarrow> int \<Rightarrow> int \<Rightarrow> 'e Failure" where
  \<comment> \<open>the argument \<open>{cause, line, column}\<close>. The message is built first, and it reads
     \<open>error.cause.message\<close>: a TypeError when the cause is \<open>null\<close> or \<open>undefined\<close>. The
     message itself is left out of the failure.\<close>
  "makeEvaluationError h thrown line column =
     (case thrown of
        Orig e \<Rightarrow> if nullish h e then TypeError else CondCompEvalError line column thrown
      | Wrapped x l k \<Rightarrow> CondCompEvalError line column thrown)"

definition setEvaluationResults ::
  "('c, 'e) Host \<Rightarrow> IfBlock list \<Rightarrow> 'e Thrown + EvaluationResultEntry list
     \<Rightarrow> 'e Failure + IfBlock list" where
  \<comment> \<open>a result that is no array is what the \<open>catch\<close> of the program returned, and is read
     as \<open>{cause, line, column}\<close>; a bare value in its place has no \<open>cause\<close> to read\<close>
  "setEvaluationResults h ifBlocks result =
     (case result of
        Inl (Wrapped x l c) \<Rightarrow> Inl (makeEvaluationError h x l c)
      | Inl (Orig e) \<Rightarrow> Inl TypeError
      | Inr entries \<Rightarrow>
          (case bindResults ifBlocks entries of None \<Rightarrow> Inl TypeError | Some bs \<Rightarrow> Inr bs))"

definition evaluateIfs :: "('c, 'e) Host \<Rightarrow> IfBlock list \<Rightarrow> 'c
    \<Rightarrow> ('e Failure + IfBlock list) \<times> 'c \<times> 'c event list" where
  \<comment> \<open>the host refuses the program before there is anything to wait for; otherwise the
     result arrives after the \<open>await\<close>\<close>
  "evaluateIfs h ifBlocks context =
     (case runInContext h False ifBlocks context of
        (Inl e, c', tr) \<Rightarrow> (Inl (makeEvaluationError h (Orig e) 0 0), c', tr)
      | (Inr result, c', tr) \<Rightarrow>
          (setEvaluationResults h ifBlocks result, suspend h c', tr @ [Suspended c']))"

definition evaluateIfsSync :: "('c, 'e) Host \<Rightarrow> IfBlock list \<Rightarrow> 'c
    \<Rightarrow> ('e Failure + IfBlock list) \<times> 'c \<times> 'c event list" where
  "evaluateIfsSync h ifBlocks context =
     (case runInContext h True ifBlocks context of
        (Inl e, c', tr) \<Rightarrow> (Inl (makeEvaluationError h (Orig e) 0 0), c', tr)
      | (Inr result, c', tr) \<Rightarrow> (setEvaluationResults h ifBlocks result, c', tr))"

section \<open>The two entry points\<close>

text \<open>
  A call returns the text or fails, and leaves the context the guards have written to.
\<close>

definition parseCode :: "('c, 'e) Host \<Rightarrow> jsstring \<Rightarrow> 'e Failure + IfBlock list" where
  \<comment> \<open>\<open>parse\<close> on a text: the tokenizer throws, or hands every comment to the callback\<close>
  "parseCode h code =
     (case tokenizer h code of
        Inl e \<Rightarrow> Inl (TokenizerError e)
      | Inr cs \<Rightarrow>
          (case parse (acornParse h) cs of
             Inl errs \<Rightarrow> Inl (CondCompParseError errs)
           | Inr None \<Rightarrow> Inl TypeError
           | Inr (Some ifBlocks) \<Rightarrow> Inr ifBlocks))"

definition finish :: "jsstring \<Rightarrow> ('e Failure + IfBlock list) \<times> 'c \<times> 'c event list
    \<Rightarrow> ('e Failure + jsstring) \<times> 'c" where
  \<comment> \<open>\<open>apply\<close> after an evaluation that did not throw\<close>
  "finish code ev =
     (case ev of
        (Inl f, c', tr) \<Rightarrow> (Inl f, c')
      | (Inr ifBlocks, c', tr) \<Rightarrow>
          (case apply code ifBlocks of None \<Rightarrow> (Inl TypeError, c') | Some out \<Rightarrow> (Inr out, c')))"

definition condComp :: "('c, 'e) Host \<Rightarrow> jsstring \<Rightarrow> 'c \<Rightarrow> ('e Failure + jsstring) \<times> 'c" where
  \<comment> \<open>\<open>parse\<close> throws before the first \<open>await\<close>; what \<open>evaluateIfs\<close> returns or throws
     arrives after the \<open>await\<close> of the call\<close>
  "condComp h code context =
     (case parseCode h code of
        Inl f \<Rightarrow> (Inl f, context)
      | Inr ifBlocks \<Rightarrow> finish code (awaited (Some (suspend h)) (evaluateIfs h ifBlocks context)))"

definition condCompSync :: "('c, 'e) Host \<Rightarrow> jsstring \<Rightarrow> 'c \<Rightarrow> ('e Failure + jsstring) \<times> 'c" where
  "condCompSync h code context =
     (case parseCode h code of
        Inl f \<Rightarrow> (Inl f, context)
      | Inr ifBlocks \<Rightarrow> finish code (evaluateIfsSync h ifBlocks context))"

section \<open>The open blocks, as the specification tells them\<close>

text \<open>
  The directives of a comment stream and the stack of unterminated \<open>#if\<close>s (with the
  placeholder \<open>#if\<close> a stray \<open>#elseif\<close> or \<open>#else\<close> creates), told by their spans alone:
  \<open>#if\<close> pushes, \<open>#endif\<close> pops, the others push only on an empty stack. \<open>spans\<close> reads
  the same off the parser's store; \<open>valid\<close> is the invariant of the scan.
\<close>

definition directives :: "Comment list \<Rightarrow> (Tag \<times> Span) list" where
  "directives cs =
     concat (map (\<lambda>c. case matchDirective (c_isBlock c) (c_text c) of
                         None \<Rightarrow> [] | Some (t, raw) \<Rightarrow> [(t, commentSpan c)]) cs)"

fun openStep :: "Span list \<Rightarrow> Tag \<times> Span \<Rightarrow> Span list" where
  "openStep stack (T_if, sp) = stack @ [sp]"
| "openStep stack (T_elseif, sp) = (if stack = [] then [sp] else stack)"
| "openStep stack (T_else, sp) = (if stack = [] then [sp] else stack)"
| "openStep stack (T_endif, sp) = butlast stack"

definition unterminated :: "(Tag \<times> Span) list \<Rightarrow> Span list" where
  "unterminated evs = foldl openStep [] evs"

definition spans :: "PState \<Rightarrow> Span list" where
  "spans st = map (\<lambda>a. o_span (heap st ! a)) (ifStack st)"

definition valid :: "PState \<Rightarrow> bool" where
  "valid st = (list_all (\<lambda>a. a < length (heap st)) (ifStack st)
     \<and> list_all (\<lambda>e. e_subtype e \<noteq> missing_endif) (errors st))"

section \<open>Reading a run\<close>

text \<open>
  What the properties of the evaluator say about the list a run returns: the guard
  evaluations in it; the guard of a step; the context the list leaves; that every guard ran,
  and every wait began, in the context that what came before had left; what a step threw;
  whether a guard was evaluated with a given truth value.
\<close>

fun steps :: "'c event list \<Rightarrow> 'c step list" where
  "steps [] = []"
| "steps (Evaluated s # tr) = s # steps tr"
| "steps (Suspended c # tr) = steps tr"

definition guardOf :: "'c step \<Rightarrow> Span \<times> jsstring" where
  "guardOf s = (fst s, fst (snd s))"

fun final :: "('c, 'e) guard \<Rightarrow> ('c \<Rightarrow> 'c) \<Rightarrow> 'c \<Rightarrow> 'c event list \<Rightarrow> 'c" where
  "final g f c [] = c"
| "final g f c (Evaluated (sp, ex, cb) # tr) = final g f (snd (g ex c)) tr"
| "final g f c (Suspended cb # tr) = final g f (f c) tr"

fun threaded :: "('c, 'e) guard \<Rightarrow> ('c \<Rightarrow> 'c) \<Rightarrow> 'c \<Rightarrow> 'c event list \<Rightarrow> bool" where
  "threaded g f c [] = True"
| "threaded g f c (Evaluated (sp, ex, cb) # tr) = (cb = c \<and> threaded g f (snd (g ex c)) tr)"
| "threaded g f c (Suspended cb # tr) = (cb = c \<and> threaded g f (f c) tr)"

definition thrownBy :: "('c, 'e) guard \<Rightarrow> 'c step \<Rightarrow> 'e option" where
  "thrownBy g s =
     (case fst (g (fst (snd s)) (snd (snd s))) of Inl e \<Rightarrow> Some e | Inr v \<Rightarrow> None)"




text \<open>The guards of a tree that stand in no \<open>#if\<close> or \<open>#elseif\<close> branch.\<close>

fun directGuards :: "IfBlock list \<Rightarrow> (Span \<times> jsstring) list"
  and directIf :: "IfBlock \<Rightarrow> (Span \<times> jsstring) list"
  and directChildren :: "IfBlock list option \<Rightarrow> (Span \<times> jsstring) list"
  and directElse :: "ElseBlock option \<Rightarrow> (Span \<times> jsstring) list"
where
  "directGuards [] = []"
| "directGuards (b # bs) = directIf b @ directGuards bs"
| "directChildren None = []"
| "directChildren (Some cs) = directGuards cs"
| "directIf (IfBlock sp ex tk ch eis el en d) =
     (sp, ex) # map (\<lambda>e. (ei_span e, ei_expression e)) (case eis of None \<Rightarrow> [] | Some es \<Rightarrow> es)
       @ directElse el"
| "directElse None = []"
| "directElse (Some (ElseBlock sp ch)) = directChildren ch"




text \<open>
  A run of the synchronous program that would go the same way in the asynchronous one:
  nothing is pending when it starts, and every guard it evaluates does in an \<open>async\<close>
  function what it does in a plain one and leaves nothing for a wait to run.
\<close>

definition quiet :: "('c, 'e) Host \<Rightarrow> 'c \<Rightarrow> 'c step list \<Rightarrow> bool" where
  "quiet h c tr =
     (suspend h c = c
      \<and> list_all (\<lambda>(sp, ex, cb).
            evalGuard h False ex cb = evalGuard h True ex cb
            \<and> suspend h (snd (evalGuard h True ex cb)) = snd (evalGuard h True ex cb)) tr)"

text \<open>
  A run in which no guard threw; how the value of a run and its steps go together (a run
  that threw ends with the step that threw, and no step before it threw); the guards that
  head the \<open>#elseif\<close>s of a block; a thrown object that carries the line and column of the
  last step and the value that step threw.
\<close>

definition calm :: "('c, 'e) guard \<Rightarrow> 'c step list \<Rightarrow> bool" where
  "calm g tr = list_all (\<lambda>s. thrownBy g s = None) tr"

definition outcome :: "('c, 'e) guard \<Rightarrow> ('x + 'y) \<Rightarrow> 'c step list \<Rightarrow> bool" where
  "outcome g r tr =
     (case r of
        Inl w \<Rightarrow> tr \<noteq> [] \<and> thrownBy g (last tr) \<noteq> None \<and> calm g (butlast tr)
      | Inr v \<Rightarrow> calm g tr)"

definition heads :: "ElseIfBlock list \<Rightarrow> (Span \<times> jsstring) list" where
  "heads es = map (\<lambda>e. (ei_span e, ei_expression e)) es"

definition pinned :: "('c, 'e) guard \<Rightarrow> 'e Thrown \<Rightarrow> 'c step list \<Rightarrow> bool" where
  "pinned g w tr =
     (\<exists>e. thrownBy g (last tr) = Some e
        \<and> w = Wrapped (Orig e) (s_line (fst (last tr))) (s_column (fst (last tr))))"

section \<open>Sample inputs\<close>

text \<open>
  Small inputs at which the theorems are applied: a stand-in for the expression parser that
  takes every text as one expression statement over its whole length, line comments at
  column 0, and a host whose context is the value of one variable \<open>A\<close>, in which no guard
  queues a job and \<open>fail(null)\<close> throws \<open>null\<close>.
\<close>

definition exprAcorn :: acorn where
  "exprAcorn s =
     Inr [\<lparr>n_type = ''ExpressionStatement'', n_start = 0, n_end = int (length s),
           n_expression = Some (0, int (length s))\<rparr>]"

definition lineComment :: "string \<Rightarrow> int \<Rightarrow> int \<Rightarrow> int \<Rightarrow> Comment" where
  "lineComment t s e l =
     \<lparr>c_isBlock = False, c_text = js t, c_start = s, c_end = e, c_line = l, c_column = 0\<rparr>"

definition sampleGuard :: "bool \<Rightarrow> (bool, nat) guard" where
  "sampleGuard sync ex c =
     (if ex = js ''A'' then (Inr c, c)
      else if ex = js ''A = true'' then (Inr True, True)
      else if ex = js ''A = false'' then (Inr False, False)
      else if ex = js ''true'' then (Inr True, c)
      else if ex = js ''fail()'' then (Inl 7, c)
      else if ex = js ''fail(null)'' then (Inl 9, c)
      else if ex = js ''await X'' then (Inr True, c)
      else (Inr False, c))"

definition sampleHost :: "Comment list \<Rightarrow> (bool, nat) Host" where
  "sampleHost cs =
     \<lparr>tokenizer = (\<lambda>code. Inr cs), acornParse = exprAcorn,
      accepts = (\<lambda>sync ex. \<not> (sync \<and> ex = js ''await X'')), syntaxError = 0,
      evalGuard = sampleGuard, suspend = (\<lambda>c. c), nullish = (\<lambda>e. e = 9)\<rparr>"

definition sampleIf :: "int \<Rightarrow> int \<Rightarrow> string \<Rightarrow> IfBlock list option \<Rightarrow> IfBlock" where
  \<comment> \<open>an \<open>#if\<close> with no \<open>#elseif\<close> and no \<open>#else\<close>, its directive at the given offset and line\<close>
  "sampleIf st ln ex ch =
     IfBlock \<lparr>s_start = st, s_end = st + 8, s_line = ln, s_column = 0\<rparr> (js ex) None ch None None
       \<lparr>s_start = st + 100, s_end = st + 109, s_line = ln + 10, s_column = 0\<rparr> False"

text \<open>
  A text of four directive comments, the comments the tokenizer delivers for it, and the
  tree the parser builds from them: an \<open>#if\<close> on \<open>A\<close> around an \<open>#if\<close> on a guard
  with a suspension point.
\<close>

definition sampleComments :: "Comment list" where
  "sampleComments =
     [lineComment '' #if A'' 0 8 1, lineComment '' #if await X'' 9 23 2,
      lineComment '' #endif'' 24 33 3, lineComment '' #endif'' 34 43 4]"

definition sampleCode :: jsstring where
  "sampleCode =
     js ''// #if A'' @ [0x0A] @ js ''// #if await X'' @ [0x0A] @ js ''// #endif'' @ [0x0A]
       @ js ''// #endif''"

definition sampleTree :: "IfBlock list" where
  "sampleTree =
     [IfBlock \<lparr>s_start = 0, s_end = 8, s_line = 1, s_column = 0\<rparr> (js ''A'') None
        (Some [IfBlock \<lparr>s_start = 9, s_end = 23, s_line = 2, s_column = 0\<rparr> (js ''await X'') None
                 None None None \<lparr>s_start = 24, s_end = 33, s_line = 3, s_column = 0\<rparr> False])
        None None \<lparr>s_start = 34, s_end = 43, s_line = 4, s_column = 0\<rparr> False]"


text \<open>
  The expression parser at the text \<open>A;\<close>: one expression statement over the two
  characters, its expression over the first. And a host with this parser that, as the
  library does, refuses a program in which \<open>A;\<close> stands where an expression must.
\<close>

definition semiAcorn :: acorn where
  "semiAcorn s =
     (if s = js ''A;''
      then Inr [\<lparr>n_type = ''ExpressionStatement'', n_start = 0, n_end = 2,
                 n_expression = Some (0, 1)\<rparr>]
      else exprAcorn s)"

definition semiHost :: "Comment list \<Rightarrow> (bool, nat) Host" where
  "semiHost cs =
     (sampleHost cs)\<lparr>acornParse := semiAcorn,
        accepts := (\<lambda>sync ex. ex \<noteq> js ''A;'' \<and> \<not> (sync \<and> ex = js ''await X''))\<rparr>"

text \<open>
  A host whose context is the value of \<open>A\<close> and whether a job that sets \<open>A\<close> is queued.
  The guard \<open>later()\<close> queues the job and is falsy, as
  \<open>(Promise.resolve().then(() => { A = true }), false)\<close> is; a wait runs the job.
\<close>

definition queueGuard :: "bool \<Rightarrow> (bool \<times> bool, nat) guard" where
  "queueGuard sync ex c =
     (if ex = js ''A'' then (Inr (fst c), c)
      else if ex = js ''later()'' then (Inr False, (fst c, True))
      else (Inr False, c))"

definition queueHost :: "Comment list \<Rightarrow> (bool \<times> bool, nat) Host" where
  "queueHost cs =
     \<lparr>tokenizer = (\<lambda>code. Inr cs), acornParse = exprAcorn,
      accepts = (\<lambda>sync ex. True), syntaxError = 0,
      evalGuard = queueGuard, suspend = (\<lambda>c. (fst c \<or> snd c, False)), nullish = (\<lambda>e. False)\<rparr>"

text \<open>
  A text of two blocks, the first on \<open>later()\<close>, the second on \<open>A\<close> around the line
  \<open>1\<close>, the comments the tokenizer delivers for it, and the tree the parser builds.
\<close>

definition queueComments :: "Comment list" where
  "queueComments =
     [lineComment '' #if later()'' 0 14 1, lineComment '' #endif'' 15 24 2,
      lineComment '' #if A'' 25 33 3, lineComment '' #endif'' 36 45 5]"

definition queueCode :: jsstring where
  "queueCode =
     js ''// #if later()'' @ [0x0A] @ js ''// #endif'' @ [0x0A] @ js ''// #if A'' @ [0x0A]
       @ js ''1'' @ [0x0A] @ js ''// #endif''"

definition queueTree :: "int option \<Rightarrow> int option \<Rightarrow> IfBlock list" where
  \<comment> \<open>with the branch taken in each block\<close>
  "queueTree t1 t2 =
     [IfBlock \<lparr>s_start = 0, s_end = 14, s_line = 1, s_column = 0\<rparr> (js ''later()'') t1 None None
        None \<lparr>s_start = 15, s_end = 24, s_line = 2, s_column = 0\<rparr> False,
      IfBlock \<lparr>s_start = 25, s_end = 33, s_line = 3, s_column = 0\<rparr> (js ''A'') t2 None None
        None \<lparr>s_start = 36, s_end = 45, s_line = 5, s_column = 0\<rparr> False]"


section \<open>What a block in the store holds\<close>

text \<open>
  The guard text and the span of the object at an address (an \<open>#else\<close> has no guard), and
  the \<open>invalid_expression\<close> entries among the errors.
\<close>

definition expressionOf :: "Obj \<Rightarrow> jsstring option" where
  "expressionOf ob =
     (case ob of IfObj sp ex ch eis el en d \<Rightarrow> Some ex | ElseIfObj sp ex ch \<Rightarrow> Some ex
      | ElseObj sp ch \<Rightarrow> None)"

definition stored :: "Obj list \<Rightarrow> nat \<Rightarrow> (jsstring option \<times> Span) option" where
  "stored h a = (case deref h a of None \<Rightarrow> None | Some ob \<Rightarrow> Some (expressionOf ob, o_span ob))"

definition invalids :: "PState \<Rightarrow> CondCompErrorEntry list" where
  "invalids st = filter (\<lambda>e. e_subtype e = invalid_expression) (errors st)"

section \<open>Line terminators at a cut\<close>

text \<open>
  C9. The helper for "the cut starts a line" is claimed to take LF, CR, LS and PS as line
  terminators. The source compares with \<open>0x2028\<close> twice and never with \<open>0x2029\<close>: after
  a paragraph separator a position is not the beginning of a line.
\<close>

theorem isEmptyLine_after_PS:
  "isEmptyLine [PS, 0x41] 1 = False \<and> isNewLineChar (Some PS) = False
   \<and> isEmptyLine [LF, 0x41] 1 \<and> isEmptyLine [CR, 0x41] 1 \<and> isEmptyLine [LS, 0x41] 1"
  by (simp add: isEmptyLine_def isNewLineChar_def charCodeAt_def PS_def LF_def CR_def LS_def)

text \<open>
  C8. After a cut that starts a line, one line terminator sequence after the cut is
  claimed to be removed, a lone CR being one. The source steps over LF, LS, PS and CR LF;
  at a CR that no LF follows it stays where it is.
\<close>

theorem slurpSingleNewLineRight_lone_CR:
  "slurpSingleNewLineRight [CR, 0x41] 0 = 0
   \<and> slurpSingleNewLineRight [LF, 0x41] 0 = 1
   \<and> slurpSingleNewLineRight [CR, LF, 0x41] 0 = 2
   \<and> slurpSingleNewLineRight [LS, 0x41] 0 = 1
   \<and> slurpSingleNewLineRight [PS, 0x41] 0 = 1"
  by (simp add: slurpSingleNewLineRight_def codePointAt_def charCodeAt_def
      PS_def LF_def CR_def LS_def)

section \<open>Texts without directives\<close>








section \<open>Unterminated blocks\<close>
lemma span_keep [simp]:
  "o_span (pushChild a ob) = o_span ob" "o_span (pushElseIf a ob) = o_span ob"
  "o_span (setElse a ob) = o_span ob" "o_span (setEndif en ob) = o_span ob"
  by (cases ob; simp add: pushChild_def pushElseIf_def setElse_def setEndif_def)+

lemma update_fields [simp]:
  "ifStack (update a f st) = ifStack st" "scopeStack (update a f st) = scopeStack st"
  "errors (update a f st) = errors st" "length (heap (update a f st)) = length (heap st)"
  "toplevel (update a f st) = toplevel st"
  by (simp_all add: update_def)

lemma update_span:
  "(\<And>ob. o_span (f ob) = o_span ob) \<Longrightarrow> o_span (heap (update a f st) ! b) = o_span (heap st ! b)"
  by (cases "a = b") (auto simp: update_def)

lemma update_spans:
  "(\<And>ob. o_span (f ob) = o_span ob) \<Longrightarrow> spans (update a f st) = spans st"
  by (simp add: spans_def update_span)

lemma update_valid: "valid (update a f st) = valid st"
  by (simp add: valid_def)

lemma addError_simps [simp]:
  "heap (addError e st) = heap st" "ifStack (addError e st) = ifStack st"
  "scopeStack (addError e st) = scopeStack st" "errors (addError e st) = errors st @ [e]"
  by (simp_all add: addError_def)

lemma addError_spans [simp]: "spans (addError e st) = spans st"
  by (simp add: spans_def)

lemma addError_valid:
  "e_subtype e \<noteq> missing_endif \<Longrightarrow> valid (addError e st) = valid st"
  by (simp add: valid_def)

lemma setScope_simps [simp]:
  "heap (setScope a st) = heap st" "ifStack (setScope a st) = ifStack st"
  "errors (setScope a st) = errors st"
  by (simp_all add: setScope_def)

lemma setScope_spans [simp]: "spans (setScope a st) = spans st"
  by (simp add: spans_def)

lemma setScope_valid [simp]: "valid (setScope a st) = valid st"
  by (simp add: valid_def)

lemma alloc_simps:
  "alloc ob st = (a, st') \<Longrightarrow>
     a = length (heap st) \<and> heap st' = heap st @ [ob] \<and> ifStack st' = ifStack st
     \<and> scopeStack st' = scopeStack st \<and> errors st' = errors st"
  by (auto simp: alloc_def)

lemma alloc_spans:
  "alloc ob st = (a, st') \<Longrightarrow> valid st \<Longrightarrow> spans st' = spans st \<and> valid st'"
  by (fastforce simp: alloc_def spans_def valid_def list_all_iff nth_append less_Suc_eq)

lemma pushIf_spans:
  "valid st \<Longrightarrow> a < length (heap st) \<Longrightarrow>
     spans (pushIf a st) = spans st @ [o_span (heap st ! a)] \<and> valid (pushIf a st)"
  by (auto simp: pushIf_def spans_def valid_def Let_def update_span list_all_iff)

lemma setExpression_spans:
  "setExpression ac raw ty c st = (ex, st') \<Longrightarrow> valid st \<Longrightarrow> spans st' = spans st \<and> valid st'"
  by (auto simp: setExpression_def parseError_def addError_valid split: if_splits sum.splits)

lemma currentIf_spans:
  assumes "currentIf sub msg c st = (cur, st')" and "valid st" and "sub \<noteq> missing_endif"
  shows "spans st' = (if spans st = [] then [commentSpan c] else spans st) \<and> valid st'
         \<and> ifStack st' \<noteq> []"
proof (cases "ifStack st = []")
  case True
  obtain a st2 where al: "alloc (makeDummyIf c)
      (addError (parseError sub msg (c_line c) (c_column c)) st) = (a, st2)"
    by (cases "alloc (makeDummyIf c) (addError (parseError sub msg (c_line c) (c_column c)) st)")
  have v1: "valid (addError (parseError sub msg (c_line c) (c_column c)) st)"
    using assms by (simp add: addError_valid parseError_def)
  from alloc_spans[OF al v1] alloc_simps[OF al] have
    s2: "spans st2 = spans st" "valid st2" "a < length (heap st2)" "heap st2 ! a = makeDummyIf c"
    by simp_all
  have st': "st' = pushIf a st2" using assms(1) True al by (auto simp: currentIf_def Let_def)
  from pushIf_spans[OF s2(2) s2(3)] s2 True show ?thesis
    by (simp add: st' makeDummyIf_def spans_def pushIf_def Let_def)
next
  case False
  then show ?thesis using assms by (simp add: currentIf_def spans_def)
qed

lemma onComment_none:
  "matchDirective (c_isBlock c) (c_text c) = None \<Longrightarrow> onComment ac st c = st"
  by (simp add: onComment_def)

lemma onComment_if:
  assumes "matchDirective (c_isBlock c) (c_text c) = Some (T_if, raw)" and "valid st"
  shows "spans (onComment ac st c) = spans st @ [commentSpan c] \<and> valid (onComment ac st c)"
proof -
  obtain ex st1 where se: "setExpression ac raw ''if'' c st = (ex, st1)"
    by (cases "setExpression ac raw ''if'' c st")
  obtain a st2 where al: "alloc (IfObj (commentSpan c) ex None None None noEndif False) st1 = (a, st2)"
    by (cases "alloc (IfObj (commentSpan c) ex None None None noEndif False) st1")
  from setExpression_spans[OF se assms(2)] have s1: "spans st1 = spans st" "valid st1" by simp_all
  from alloc_spans[OF al s1(2)] alloc_simps[OF al] have
    s2: "spans st2 = spans st1" "valid st2" "a < length (heap st2)"
        "heap st2 ! a = IfObj (commentSpan c) ex None None None noEndif False"
    by simp_all
  have "onComment ac st c = pushIf a st2"
    using assms(1) se al by (simp add: onComment_def)
  with pushIf_spans[OF s2(2) s2(3)] s1 s2 show ?thesis by simp
qed

lemma onComment_elseif:
  assumes "matchDirective (c_isBlock c) (c_text c) = Some (T_elseif, raw)" and "valid st"
  shows "spans (onComment ac st c) = (if spans st = [] then [commentSpan c] else spans st)
         \<and> valid (onComment ac st c)"
proof -
  obtain ex st1 where se: "setExpression ac raw ''elseif'' c st = (ex, st1)"
    by (cases "setExpression ac raw ''elseif'' c st")
  obtain b st2 where al: "alloc (ElseIfObj (commentSpan c) ex None) st1 = (b, st2)"
    by (cases "alloc (ElseIfObj (commentSpan c) ex None) st1")
  obtain cur st3 where cu: "currentIf elseif_without_if ''Found #elseif without matching #if.'' c st2 = (cur, st3)"
    by (cases "currentIf elseif_without_if ''Found #elseif without matching #if.'' c st2")
  from setExpression_spans[OF se assms(2)] have s1: "spans st1 = spans st" "valid st1" by simp_all
  from alloc_spans[OF al s1(2)] have s2: "spans st2 = spans st1" "valid st2" by simp_all
  from currentIf_spans[OF cu s2(2)] have
    s3: "spans st3 = (if spans st2 = [] then [commentSpan c] else spans st2)" "valid st3" by simp_all
  define st4 where "st4 = (if hasElse (heap st3) cur
       then addError (parseError elseif_after_else
              ''Found invalid #elseif after #else.'' (c_line c) (c_column c)) st3
       else st3)"
  have s4: "spans st4 = spans st3" "valid st4"
    using s3 by (simp_all add: st4_def addError_valid parseError_def)
  have "onComment ac st c = setScope b (update cur (pushElseIf b) st4)"
    using assms(1) se al cu by (simp add: onComment_def st4_def)
  then show ?thesis using s1 s2 s3 s4 by (simp add: update_spans update_valid)
qed

lemma onComment_else:
  assumes "matchDirective (c_isBlock c) (c_text c) = Some (T_else, raw)" and "valid st"
  shows "spans (onComment ac st c) = (if spans st = [] then [commentSpan c] else spans st)
         \<and> valid (onComment ac st c)"
proof -
  obtain b st1 where al: "alloc (ElseObj (commentSpan c) None) st = (b, st1)"
    by (cases "alloc (ElseObj (commentSpan c) None) st")
  obtain cur st2 where cu: "currentIf else_without_if ''Found #else without matching #if or #elseif.'' c st1 = (cur, st2)"
    by (cases "currentIf else_without_if ''Found #else without matching #if or #elseif.'' c st1")
  from alloc_spans[OF al assms(2)] have s1: "spans st1 = spans st" "valid st1" by simp_all
  from currentIf_spans[OF cu s1(2)] have
    s2: "spans st2 = (if spans st1 = [] then [commentSpan c] else spans st1)" "valid st2" by simp_all
  define st3 where "st3 = (if hasElse (heap st2) cur
       then addError (parseError duplicate_else
              ''Found duplicate #else.'' (c_line c) (c_column c)) st2
       else st2)"
  have s3: "spans st3 = spans st2" "valid st3"
    using s2 by (simp_all add: st3_def addError_valid parseError_def)
  have "onComment ac st c = setScope b (update cur (setElse b) st3)"
    using assms(1) al cu by (simp add: onComment_def st3_def)
  then show ?thesis using s1 s2 s3 by (simp add: update_spans update_valid)
qed

lemma onComment_endif:
  assumes "matchDirective (c_isBlock c) (c_text c) = Some (T_endif, raw)" and "valid st"
  shows "spans (onComment ac st c) = butlast (spans st) \<and> valid (onComment ac st c)"
proof (cases "ifStack st = []")
  case True
  then show ?thesis using assms
    by (simp add: onComment_def spans_def addError_valid parseError_def)
next
  case False
  have v: "valid (st\<lparr>ifStack := butlast (ifStack st)\<rparr>)"
    using assms(2) by (auto simp: valid_def list_all_iff dest: in_set_butlastD)
  show ?thesis using assms(1) False v
    by (auto simp: onComment_def Let_def spans_def valid_def update_span map_butlast)
qed

lemma onComment_step:
  assumes "valid st"
  shows "spans (onComment ac st c)
           = foldl openStep (spans st)
               (case matchDirective (c_isBlock c) (c_text c) of
                  None \<Rightarrow> [] | Some (t, raw) \<Rightarrow> [(t, commentSpan c)])
         \<and> valid (onComment ac st c)"
proof (cases "matchDirective (c_isBlock c) (c_text c)")
  case None
  then show ?thesis using assms by (simp add: onComment_none)
next
  case (Some m)
  obtain t raw where m: "m = (t, raw)" by (cases m)
  show ?thesis
    using onComment_if[of c raw st ac] onComment_elseif[of c raw st ac]
      onComment_else[of c raw st ac] onComment_endif[of c raw st ac] Some m assms
    by (cases t) simp_all
qed

lemma scan_steps:
  "valid st \<Longrightarrow>
     spans (foldl (onComment ac) st cs) = foldl openStep (spans st) (directives cs)
     \<and> valid (foldl (onComment ac) st cs)"
proof (induction cs arbitrary: st)
  case Nil
  then show ?case by (simp add: directives_def)
next
  case (Cons c cs)
  from onComment_step[OF Cons.prems, of ac c] Cons.IH[of "onComment ac st c"]
  show ?case by (simp add: directives_def)
qed

lemma scan_spans:
  "spans (scan ac cs) = unterminated (directives cs) \<and> valid (scan ac cs)"
  using scan_steps[of initial ac cs]
  by (simp add: scan_def unterminated_def valid_def initial_def spans_def)

lemma missing_of_stack:
  "list_all (\<lambda>a. a < length h) as \<Longrightarrow>
   concat (map (missingEndif h) as)
     = map (\<lambda>sp. parseError missing_endif ''Found #if without matching #elseif.'' (s_line sp) (s_column sp))
         (map (\<lambda>a. o_span (h ! a)) as)"
  by (induction as) (simp_all add: missingEndif_def deref_def)

lemma subseq_sorted_wrt:
  "subseq xs ys \<Longrightarrow> sorted_wrt P ys \<Longrightarrow> sorted_wrt P xs"
proof (induction rule: list_emb.induct)
  case (list_emb_Cons2 x y xs ys)
  then have "set xs \<subseteq> set ys" by (auto dest: list_emb_set)
  with list_emb_Cons2 show ?case by auto
qed auto

lemma openStep_subseq:
  "subseq (foldl openStep stack evs) (stack @ map snd evs)"
proof (induction evs arbitrary: stack)
  case Nil
  show ?case by simp
next
  case (Cons ev evs)
  obtain t sp where ev: "ev = (t, sp)" by (cases ev)
  have a: "subseq (foldl openStep (openStep stack ev) evs) (openStep stack ev @ map snd evs)"
    by (rule Cons.IH)
  have b: "subseq (openStep stack ev) (stack @ [sp])"
    by (cases t) (auto simp: ev intro: subseq_rev_drop_many)
  have "subseq (openStep stack ev @ map snd evs) ((stack @ [sp]) @ map snd evs)"
    using b by (intro list_emb_append_mono) auto
  with a show ?case by (auto simp: ev intro: subseq_order.order_trans)
qed

lemma directives_subseq: "subseq (map snd (directives cs)) (map commentSpan cs)"
  by (induction cs) (auto simp: directives_def split: option.splits)

lemma unterminated_sorted:
  assumes "sorted_wrt (<) (map c_start cs)"
  shows "sorted_wrt (<) (map s_start (unterminated (directives cs)))"
proof -
  have "subseq (unterminated (directives cs)) (map commentSpan cs)"
    using openStep_subseq[of "[]" "directives cs"] directives_subseq[of cs]
    by (auto simp: unterminated_def intro: subseq_order.order_trans)
  then have "subseq (map s_start (unterminated (directives cs))) (map s_start (map commentSpan cs))"
    by (rule subseq_map)
  moreover have "map s_start (map commentSpan cs) = map c_start cs"
    by (simp add: commentSpan_def)
  ultimately show ?thesis using assms subseq_sorted_wrt by metis
qed

text \<open>
  C4. After the scan the if-stack holds, bottom first, exactly the unterminated \<open>#if\<close>s;
  the error list ends with one \<open>missing_endif\<close> entry for each of them, in that order,
  whose line and column are those of that \<open>#if\<close>, and holds no other \<open>missing_endif\<close>
  entry; the parse then fails with this list. Comments arriving in the order of the text,
  the bottom of the stack is the outermost block.
\<close>

theorem missing_endif_per_open_if:
  "map (\<lambda>a. o_span (heap (scan ac cs) ! a)) (ifStack (scan ac cs)) = unterminated (directives cs)
   \<and> finalErrors (scan ac cs)
       = errors (scan ac cs)
         @ map (\<lambda>sp. \<lparr>e_type = ''parse'', e_subtype = missing_endif,
                       e_message = ''Found #if without matching #elseif.'',
                       e_line = s_line sp, e_column = s_column sp\<rparr>)
             (unterminated (directives cs))
   \<and> list_all (\<lambda>e. e_subtype e \<noteq> missing_endif) (errors (scan ac cs))
   \<and> (unterminated (directives cs) \<noteq> [] \<longrightarrow> parse ac cs = Inl (finalErrors (scan ac cs)))
   \<and> (sorted_wrt (<) (map c_start cs)
        \<longrightarrow> sorted_wrt (<) (map s_start (unterminated (directives cs))))"
proof -
  have sp: "spans (scan ac cs) = unterminated (directives cs)" and v: "valid (scan ac cs)"
    using scan_spans[of ac cs] by simp_all
  have fe: "finalErrors (scan ac cs)
       = errors (scan ac cs)
         @ map (\<lambda>sp. \<lparr>e_type = ''parse'', e_subtype = missing_endif,
                       e_message = ''Found #if without matching #elseif.'',
                       e_line = s_line sp, e_column = s_column sp\<rparr>)
             (unterminated (directives cs))"
    using v sp missing_of_stack[of "heap (scan ac cs)" "ifStack (scan ac cs)"]
    by (simp add: finalErrors_def valid_def spans_def parseError_def)
  have pe: "unterminated (directives cs) \<noteq> [] \<longrightarrow> parse ac cs = Inl (finalErrors (scan ac cs))"
    using fe by (simp add: parse_def Let_def)
  show ?thesis
    using sp v fe pe unterminated_sorted[of cs] by (simp add: spans_def valid_def)
qed

theorem missing_endif_per_open_if_witness:
  "sorted_wrt (<) (map c_start
      [lineComment '' #if A'' 2 10 2,
       \<lparr>c_isBlock = False, c_text = js '' #if B'', c_start = 17, c_end = 25, c_line = 4,
        c_column = 4\<rparr>])
   \<and> unterminated (directives
        [lineComment '' #if A'' 2 10 2,
         \<lparr>c_isBlock = False, c_text = js '' #if B'', c_start = 17, c_end = 25, c_line = 4,
          c_column = 4\<rparr>])
       = [\<lparr>s_start = 2, s_end = 10, s_line = 2, s_column = 0\<rparr>,
          \<lparr>s_start = 17, s_end = 25, s_line = 4, s_column = 4\<rparr>]
   \<and> filter (\<lambda>e. e_subtype e = missing_endif)
        (finalErrors (scan exprAcorn
           [lineComment '' #if A'' 2 10 2,
            \<lparr>c_isBlock = False, c_text = js '' #if B'', c_start = 17, c_end = 25, c_line = 4,
             c_column = 4\<rparr>]))
       = [\<lparr>e_type = ''parse'', e_subtype = missing_endif,
           e_message = ''Found #if without matching #elseif.'', e_line = 2, e_column = 0\<rparr>,
          \<lparr>e_type = ''parse'', e_subtype = missing_endif,
           e_message = ''Found #if without matching #elseif.'', e_line = 4, e_column = 4\<rparr>]
   \<and> parse exprAcorn
        [lineComment '' #if A'' 2 10 2,
         \<lparr>c_isBlock = False, c_text = js '' #if B'', c_start = 17, c_end = 25, c_line = 4,
          c_column = 4\<rparr>]
       = Inl (finalErrors (scan exprAcorn
            [lineComment '' #if A'' 2 10 2,
             \<lparr>c_isBlock = False, c_text = js '' #if B'', c_start = 17, c_end = 25, c_line = 4,
              c_column = 4\<rparr>]))"
proof -
  have m: "matchDirective False (js '' #if A'') = Some (T_if, js ''A'')"
    "matchDirective False (js '' #if B'') = Some (T_if, js ''B'')"
    by (simp_all add: matchDirective_def reAt_def js_def isSpace_def reSpace_def tagWord_def
        reTail_def atEnd_def isLineTerminator_def)
  have u: "unterminated (directives
        [lineComment '' #if A'' 2 10 2,
         \<lparr>c_isBlock = False, c_text = js '' #if B'', c_start = 17, c_end = 25, c_line = 4,
          c_column = 4\<rparr>])
      = [\<lparr>s_start = 2, s_end = 10, s_line = 2, s_column = 0\<rparr>,
         \<lparr>s_start = 17, s_end = 25, s_line = 4, s_column = 4\<rparr>]"
    by (simp add: unterminated_def directives_def lineComment_def m commentSpan_def)
  have f: "\<And>xs. list_all (\<lambda>e. e_subtype e \<noteq> missing_endif) xs
      \<Longrightarrow> filter (\<lambda>e. e_subtype e = missing_endif) xs = []"
    by (simp add: list_all_iff)
  show ?thesis
    using missing_endif_per_open_if [of exprAcorn
        "[lineComment '' #if A'' 2 10 2,
          \<lparr>c_isBlock = False, c_text = js '' #if B'', c_start = 17, c_end = 25, c_line = 4,
           c_column = 4\<rparr>]"]
    by (simp add: u f) (simp add: lineComment_def)
qed

section \<open>Recognising a directive\<close>

lemma LT_isSpace: "isLineTerminator c \<Longrightarrow> isSpace c"
  by (auto simp: isLineTerminator_def isSpace_def reSpace_def)

lemma reTail_line:
  assumes "reTail m r = Some raw"
  shows "list_all (\<lambda>c. \<not> isLineTerminator c) raw
     \<and> (raw \<noteq> [] \<longrightarrow>
          (if m then takeWhile (\<lambda>c. \<not> isLineTerminator c) r else r) = takeWhile isSpace r @ raw)"
proof (cases "raw = []")
  case True
  then show ?thesis by simp
next
  case False
  define ws where "ws = takeWhile isSpace r"
  define r1 where "r1 = dropWhile isSpace r"
  have r: "r = ws @ r1" by (simp add: ws_def r1_def)
  have ne: "\<not> atEnd m r" using assms False by (auto simp: reTail_def)
  have ws: "ws \<noteq> []"
    using assms False ne by (auto simp: reTail_def Let_def ws_def split: if_splits)
  have a2: "\<not> (r1 = [] \<or> (m \<and> (\<exists>c \<in> set (tl ws). isLineTerminator c)))"
    using assms False ne ws by (auto simp: reTail_def Let_def ws_def r1_def split: if_splits)
  have raw: "raw = takeWhile (\<lambda>c. \<not> isLineTerminator c) r1"
    and fin: "dropWhile (\<lambda>c. \<not> isLineTerminator c) r1 = [] \<or> m"
    using assms ne ws a2 by (auto simp: reTail_def Let_def ws_def r1_def split: if_splits)
  have nolt: "list_all (\<lambda>c. \<not> isLineTerminator c) raw"
    by (auto simp: raw list_all_iff dest: set_takeWhileD)
  have line: "(if m then takeWhile (\<lambda>c. \<not> isLineTerminator c) r else r) = ws @ raw"
  proof (cases m)
    case True
    obtain w ws' where w: "ws = w # ws'" using ws by (cases ws) auto
    then have hd: "r = w # ws' @ r1" using r by simp
    have "\<not> isLineTerminator w" using ne True hd by (simp add: atEnd_def)
    moreover have "\<forall>c \<in> set ws'. \<not> isLineTerminator c" using a2 True w by simp
    ultimately have "\<forall>c \<in> set ws. \<not> isLineTerminator c" using w by simp
    then have "takeWhile (\<lambda>c. \<not> isLineTerminator c) (ws @ r1) = ws @ takeWhile (\<lambda>c. \<not> isLineTerminator c) r1"
      by (simp add: takeWhile_append2)
    then show ?thesis using True r raw by simp
  next
    case False
    then have "dropWhile (\<lambda>c. \<not> isLineTerminator c) r1 = []" using fin by simp
    then have "takeWhile (\<lambda>c. \<not> isLineTerminator c) r1 = r1"
      by (metis append_Nil2 takeWhile_dropWhile_id)
    then show ?thesis using False r raw by metis
  qed
  show ?thesis using nolt line by (simp add: ws_def)
qed

lemma reTag_word:
  "reTag m ts r = Some (t, raw) \<Longrightarrow>
     r = tagWord t @ drop (length (tagWord t)) r \<and> reTail m (drop (length (tagWord t)) r) = Some raw"
proof (induction ts)
  case Nil
  then show ?case by simp
next
  case (Cons u ts)
  show ?case
  proof (cases "take (length (tagWord u)) r = tagWord u
      \<and> reTail m (drop (length (tagWord u)) r) \<noteq> None")
    case True
    then have "u = t" "reTail m (drop (length (tagWord u)) r) = Some raw"
      using Cons.prems by auto
    moreover have "r = tagWord u @ drop (length (tagWord u)) r"
      using True by (metis append_take_drop_id)
    ultimately show ?thesis by simp
  next
    case False
    then have "reTag m ts r = Some (t, raw)" using Cons.prems by (auto split: option.splits)
    then show ?thesis by (rule Cons.IH)
  qed
qed

lemma dropWhile_split: "\<exists>ws. r = ws @ dropWhile P r \<and> list_all P ws"
  by (rule exI[of _ "takeWhile P r"]) (auto simp: list_all_iff dest: set_takeWhileD)

lemma reAt_shape:
  assumes "reAt b r = Some (t, raw)"
  shows "\<exists>ws star ws' rest.
      r = ws @ star @ ws' @ [0x23] @ tagWord t @ rest
      \<and> list_all isSpace ws \<and> (star = [] \<or> (b \<and> star = [0x2A])) \<and> list_all isSpace ws'
      \<and> (\<not> b \<longrightarrow> ws' = []) \<and> reTail b rest = Some raw"
proof -
  define r1 where "r1 = dropWhile isSpace r"
  define r2 where "r2 = (if b then (case r1 of c # cs \<Rightarrow> if c = 0x2A then cs else r1 | [] \<Rightarrow> r1)
                else r1)"
  define r3 where "r3 = (if b then dropWhile isSpace r2 else r2)"
  obtain ws where ws: "r = ws @ r1" "list_all isSpace ws"
    using dropWhile_split[of r isSpace] by (auto simp: r1_def)
  have "\<exists>star. r1 = star @ r2 \<and> (star = [] \<or> (b \<and> star = [0x2A]))"
  proof (cases "b \<and> r1 \<noteq> [] \<and> hd r1 = 0x2A")
    case True
    then have "r1 = [0x2A] @ r2" by (cases r1) (auto simp: r2_def)
    then show ?thesis using True by blast
  next
    case False
    then have "r1 = [] @ r2" by (cases r1) (auto simp: r2_def)
    then show ?thesis by blast
  qed
  then obtain star where star: "r1 = star @ r2" "star = [] \<or> (b \<and> star = [0x2A])"
    by blast
  obtain ws' where ws': "r2 = ws' @ r3" "list_all isSpace ws'" "\<not> b \<longrightarrow> ws' = []"
    using dropWhile_split[of r2 isSpace] by (cases b) (auto simp: r3_def)
  have "(case r3 of [] \<Rightarrow> None
         | c # cs \<Rightarrow> if c = 0x23 then reTag b [T_if, T_elseif, T_else, T_endif] cs else None)
        = Some (t, raw)"
    using assms unfolding reAt_def Let_def r3_def r2_def r1_def by simp
  then obtain cs where cs: "r3 = 0x23 # cs" "reTag b [T_if, T_elseif, T_else, T_endif] cs = Some (t, raw)"
    by (cases r3) (auto split: if_splits)
  from reTag_word[OF cs(2)] have
    w: "cs = tagWord t @ drop (length (tagWord t)) cs"
      "reTail b (drop (length (tagWord t)) cs) = Some raw" by simp_all
  have "r = ws @ star @ ws' @ [0x23] @ tagWord t @ drop (length (tagWord t)) cs"
    using ws star ws' cs(1) w(1) by simp
  then show ?thesis using ws star ws' w(2) by blast
qed

lemma reScan_start:
  "reScan ls s = Some (t, raw) \<Longrightarrow>
     \<exists>pre r. s = pre @ r \<and> ((pre = [] \<and> ls) \<or> (pre \<noteq> [] \<and> isLineTerminator (last pre)))
        \<and> reAt True r = Some (t, raw)"
proof (induction s arbitrary: ls)
  case Nil
  then show ?case by (auto split: if_splits)
next
  case (Cons c cs)
  show ?case
  proof (cases "ls \<and> reAt True (c # cs) \<noteq> None")
    case True
    then have "reAt True (c # cs) = Some (t, raw)" using Cons.prems by auto
    then show ?thesis using True by (intro exI[of _ "[]"] exI[of _ "c # cs"]) simp
  next
    case False
    then have "reScan (isLineTerminator c) cs = Some (t, raw)"
      using Cons.prems by (auto split: if_splits option.splits)
    from Cons.IH[OF this] obtain pre r where
      p: "cs = pre @ r" "(pre = [] \<and> isLineTerminator c) \<or> (pre \<noteq> [] \<and> isLineTerminator (last pre))"
         "reAt True r = Some (t, raw)" by blast
    show ?thesis using p by (intro exI[of _ "c # pre"] exI[of _ r]) auto
  qed
qed

lemma reScan_first:
  "reScan ls s = Some x \<Longrightarrow>
     \<exists>pre r. s = pre @ r \<and> ((pre = [] \<and> ls) \<or> (pre \<noteq> [] \<and> isLineTerminator (last pre)))
        \<and> reAt True r = Some x
        \<and> (\<forall>p q. s = p @ q \<and> length p < length pre
               \<and> ((p = [] \<and> ls) \<or> (p \<noteq> [] \<and> isLineTerminator (last p)))
             \<longrightarrow> reAt True q = None)"
proof (induction s arbitrary: ls)
  case Nil
  then show ?case by (auto split: if_splits)
next
  case (Cons c cs)
  show ?case
  proof (cases "ls \<and> reAt True (c # cs) \<noteq> None")
    case True
    then have "reAt True (c # cs) = Some x" using Cons.prems by auto
    then show ?thesis using True by (intro exI[of _ "[]"] exI[of _ "c # cs"]) simp
  next
    case False
    then have "reScan (isLineTerminator c) cs = Some x"
      using Cons.prems by (auto split: if_splits option.splits)
    from Cons.IH[OF this] obtain pre r where
      p: "cs = pre @ r"
         "(pre = [] \<and> isLineTerminator c) \<or> (pre \<noteq> [] \<and> isLineTerminator (last pre))"
         "reAt True r = Some x"
         "\<forall>p q. cs = p @ q \<and> length p < length pre
               \<and> ((p = [] \<and> isLineTerminator c) \<or> (p \<noteq> [] \<and> isLineTerminator (last p)))
             \<longrightarrow> reAt True q = None"
      by blast
    have e: "\<forall>p q. c # cs = p @ q \<and> length p < length (c # pre)
               \<and> ((p = [] \<and> ls) \<or> (p \<noteq> [] \<and> isLineTerminator (last p)))
             \<longrightarrow> reAt True q = None"
    proof (intro allI impI)
      fix p' q
      assume a: "c # cs = p' @ q \<and> length p' < length (c # pre)
               \<and> ((p' = [] \<and> ls) \<or> (p' \<noteq> [] \<and> isLineTerminator (last p')))"
      show "reAt True q = None"
      proof (cases p')
        case Nil
        then have "q = c # cs" "ls" using a by auto
        then show ?thesis using False by (cases "reAt True (c # cs)") auto
      next
        case (Cons d ds)
        then have "cs = ds @ q" "length ds < length pre"
          "(ds = [] \<and> isLineTerminator c) \<or> (ds \<noteq> [] \<and> isLineTerminator (last ds))"
          using a by (auto split: if_splits)
        then show ?thesis using p(4) by blast
      qed
    qed
    show ?thesis
      using p(1,2,3) e by (intro exI[of _ "c # pre"] exI[of _ r]) auto
  qed
qed

lemma reScan_none:
  "reScan ls s = None \<Longrightarrow> s = p @ q
     \<Longrightarrow> (p = [] \<and> ls) \<or> (p \<noteq> [] \<and> isLineTerminator (last p)) \<Longrightarrow> reAt True q = None"
proof (induction s arbitrary: ls p)
  case Nil
  then show ?case by (auto split: if_splits)
next
  case (Cons c cs)
  show ?case
  proof (cases p)
    case Nil
    then show ?thesis using Cons.prems by (auto split: if_splits option.splits)
  next
    case p: (Cons d ds)
    have n: "reScan (isLineTerminator c) cs = None"
      using Cons.prems(1) by (auto split: if_splits option.splits)
    have "cs = ds @ q" "(ds = [] \<and> isLineTerminator c) \<or> (ds \<noteq> [] \<and> isLineTerminator (last ds))"
      using Cons.prems(2,3) p by (auto split: if_splits)
    then show ?thesis using Cons.IH[OF n] by blast
  qed
qed

text \<open>
  C6, as amended. A line comment is a directive only if its text, after whitespace, begins
  with \<open>#\<close> and the tag. A block comment is a directive exactly if the pattern matches at
  the start of one of its lines, that is after whitespace and at most one \<open>*\<close>: the pattern
  is tried at the start of every line, not of the first line only, and the first line start
  at which it matches gives the tag and the guard text. In both the guard text holds no
  line terminator and, when it is not empty, is what stands on the line of the tag after
  the tag and whitespace: the lines after that line do not contribute.
\<close>

theorem directive_line:
  "(matchDirective False text = Some (t, raw) \<longrightarrow>
      (\<exists>ws rest. text = ws @ [0x23] @ tagWord t @ rest \<and> list_all isSpace ws
          \<and> (raw \<noteq> [] \<longrightarrow> rest = takeWhile isSpace rest @ raw))
      \<and> list_all (\<lambda>c. \<not> isLineTerminator c) raw)
   \<and> (matchDirective True text = Some (t, raw) \<longrightarrow>
      (\<exists>pre ws star ws' rest.
          text = pre @ ws @ star @ ws' @ [0x23] @ tagWord t @ rest
          \<and> (pre = [] \<or> isLineTerminator (last pre))
          \<and> list_all isSpace ws \<and> (star = [] \<or> star = [0x2A]) \<and> list_all isSpace ws'
          \<and> (raw \<noteq> [] \<longrightarrow>
                takeWhile (\<lambda>c. \<not> isLineTerminator c) rest = takeWhile isSpace rest @ raw)
          \<and> reAt True (ws @ star @ ws' @ [0x23] @ tagWord t @ rest) = Some (t, raw)
          \<and> (\<forall>p q. text = p @ q \<and> length p < length pre
                  \<and> (p = [] \<or> isLineTerminator (last p))
                \<longrightarrow> reAt True q = None))
      \<and> list_all (\<lambda>c. \<not> isLineTerminator c) raw)
   \<and> (matchDirective True text = None \<longleftrightarrow>
        (\<forall>p q. text = p @ q \<and> (p = [] \<or> isLineTerminator (last p)) \<longrightarrow> reAt True q = None))"
proof (intro conjI impI)
  assume a: "matchDirective False text = Some (t, raw)"
  then have "reAt False text = Some (t, raw)" by (simp add: matchDirective_def)
  from reAt_shape[OF this] obtain ws rest where
    s: "text = ws @ [0x23] @ tagWord t @ rest" "list_all isSpace ws" "reTail False rest = Some raw"
    by auto
  from reTail_line[OF s(3)] show "list_all (\<lambda>c. \<not> isLineTerminator c) raw" by simp
  from reTail_line[OF s(3)] s
  show "\<exists>ws rest. text = ws @ [0x23] @ tagWord t @ rest \<and> list_all isSpace ws
          \<and> (raw \<noteq> [] \<longrightarrow> rest = takeWhile isSpace rest @ raw)"
    by auto
next
  assume a: "matchDirective True text = Some (t, raw)"
  then have "reScan True text = Some (t, raw)" by (simp add: matchDirective_def)
  from reScan_first[OF this] obtain pre r where
    p: "text = pre @ r" "pre = [] \<or> isLineTerminator (last pre)" "reAt True r = Some (t, raw)"
       "\<forall>p q. text = p @ q \<and> length p < length pre
               \<and> ((p = [] \<and> True) \<or> (p \<noteq> [] \<and> isLineTerminator (last p)))
             \<longrightarrow> reAt True q = None"
    by auto
  have f: "\<forall>p q. text = p @ q \<and> length p < length pre
                  \<and> (p = [] \<or> isLineTerminator (last p))
                \<longrightarrow> reAt True q = None"
    using p(4) by blast
  from reAt_shape[OF p(3)] obtain ws star ws' rest where
    s: "r = ws @ star @ ws' @ [0x23] @ tagWord t @ rest" "list_all isSpace ws"
       "star = [] \<or> star = [0x2A]" "list_all isSpace ws'" "reTail True rest = Some raw"
    by auto
  from reTail_line[OF s(5)] show "list_all (\<lambda>c. \<not> isLineTerminator c) raw" by simp
  from reTail_line[OF s(5)] have
    l: "raw \<noteq> [] \<longrightarrow> takeWhile (\<lambda>c. \<not> isLineTerminator c) rest = takeWhile isSpace rest @ raw"
    by simp
  have m: "reAt True (ws @ star @ ws' @ [0x23] @ tagWord t @ rest) = Some (t, raw)"
    using p(3) s(1) by simp
  have t: "text = pre @ ws @ star @ ws' @ [0x23] @ tagWord t @ rest"
    using p(1) s(1) by simp
  show "\<exists>pre ws star ws' rest.
          text = pre @ ws @ star @ ws' @ [0x23] @ tagWord t @ rest
          \<and> (pre = [] \<or> isLineTerminator (last pre))
          \<and> list_all isSpace ws \<and> (star = [] \<or> star = [0x2A]) \<and> list_all isSpace ws'
          \<and> (raw \<noteq> [] \<longrightarrow>
                takeWhile (\<lambda>c. \<not> isLineTerminator c) rest = takeWhile isSpace rest @ raw)
          \<and> reAt True (ws @ star @ ws' @ [0x23] @ tagWord t @ rest) = Some (t, raw)
          \<and> (\<forall>p q. text = p @ q \<and> length p < length pre
                  \<and> (p = [] \<or> isLineTerminator (last p))
                \<longrightarrow> reAt True q = None)"
    using t p(2) s(2-4) l m f by blast
next
  show "matchDirective True text = None \<longleftrightarrow>
        (\<forall>p q. text = p @ q \<and> (p = [] \<or> isLineTerminator (last p)) \<longrightarrow> reAt True q = None)"
  proof
    assume "matchDirective True text = None"
    then have n: "reScan True text = None" by (simp add: matchDirective_def)
    show "\<forall>p q. text = p @ q \<and> (p = [] \<or> isLineTerminator (last p)) \<longrightarrow> reAt True q = None"
    proof (intro allI impI)
      fix p q
      assume a: "text = p @ q \<and> (p = [] \<or> isLineTerminator (last p))"
      then have "(p = [] \<and> True) \<or> (p \<noteq> [] \<and> isLineTerminator (last p))" by auto
      with reScan_none[OF n, of p q] a show "reAt True q = None" by blast
    qed
  next
    assume a: "\<forall>p q. text = p @ q \<and> (p = [] \<or> isLineTerminator (last p)) \<longrightarrow> reAt True q = None"
    show "matchDirective True text = None"
    proof (cases "reScan True text")
      case None
      then show ?thesis by (simp add: matchDirective_def)
    next
      case (Some x)
      obtain t' raw' where x: "x = (t', raw')" by (cases x)
      from reScan_start[of True "text" t' raw'] Some x obtain pre r where
        "text = pre @ r" "pre = [] \<or> isLineTerminator (last pre)" "reAt True r = Some (t', raw')"
        by auto
      with a show ?thesis by force
    qed
  qed
qed

theorem directive_line_witness:
  "(\<exists>ws rest. js '' #if A'' = ws @ [0x23] @ tagWord T_if @ rest \<and> list_all isSpace ws
        \<and> rest = takeWhile isSpace rest @ js ''A'')
   \<and> matchDirective True (js '' #if A'' @ [0x0A] @ js '' #if B'') = Some (T_if, js ''A'')
   \<and> (\<exists>pre ws star ws' rest.
          js '' #if A'' @ [0x0A] @ js '' #if B'' = pre @ ws @ star @ ws' @ [0x23] @ tagWord T_if @ rest
          \<and> (pre = [] \<or> isLineTerminator (last pre))
          \<and> list_all isSpace ws \<and> (star = [] \<or> star = [0x2A]) \<and> list_all isSpace ws'
          \<and> takeWhile (\<lambda>c. \<not> isLineTerminator c) rest = takeWhile isSpace rest @ js ''A''
          \<and> reAt True (ws @ star @ ws' @ [0x23] @ tagWord T_if @ rest) = Some (T_if, js ''A'')
          \<and> (\<forall>p q. js '' #if A'' @ [0x0A] @ js '' #if B'' = p @ q \<and> length p < length pre
                  \<and> (p = [] \<or> isLineTerminator (last p))
                \<longrightarrow> reAt True q = None))
   \<and> list_all (\<lambda>c. \<not> isLineTerminator c) (js ''A'')
   \<and> matchDirective True (js '' foo'') = None \<and> reAt True (js '' foo'') = None"
proof -
  have m1: "matchDirective False (js '' #if A'') = Some (T_if, js ''A'')"
    by (simp add: matchDirective_def reAt_def js_def isSpace_def reSpace_def tagWord_def
        reTail_def atEnd_def isLineTerminator_def)
  have m2: "matchDirective True (js '' #if A'' @ [0x0A] @ js '' #if B'') = Some (T_if, js ''A'')"
    by (simp add: matchDirective_def reAt_def js_def isSpace_def reSpace_def tagWord_def
        reTail_def atEnd_def isLineTerminator_def)
  have m3: "matchDirective True (js '' foo'') = None"
    by (simp add: matchDirective_def reAt_def js_def isSpace_def reSpace_def tagWord_def
        reTail_def atEnd_def isLineTerminator_def)
  have n: "js ''A'' \<noteq> []"
    by (simp add: js_def)
  have a: "(\<exists>ws rest. js '' #if A'' = ws @ [0x23] @ tagWord T_if @ rest \<and> list_all isSpace ws
        \<and> rest = takeWhile isSpace rest @ js ''A'')
      \<and> list_all (\<lambda>c. \<not> isLineTerminator c) (js ''A'')"
    using directive_line [of "js '' #if A''" T_if "js ''A''"] by (simp only: m1 n) simp
  have b: "\<exists>pre ws star ws' rest.
          js '' #if A'' @ [0x0A] @ js '' #if B'' = pre @ ws @ star @ ws' @ [0x23] @ tagWord T_if @ rest
          \<and> (pre = [] \<or> isLineTerminator (last pre))
          \<and> list_all isSpace ws \<and> (star = [] \<or> star = [0x2A]) \<and> list_all isSpace ws'
          \<and> takeWhile (\<lambda>c. \<not> isLineTerminator c) rest = takeWhile isSpace rest @ js ''A''
          \<and> reAt True (ws @ star @ ws' @ [0x23] @ tagWord T_if @ rest) = Some (T_if, js ''A'')
          \<and> (\<forall>p q. js '' #if A'' @ [0x0A] @ js '' #if B'' = p @ q \<and> length p < length pre
                  \<and> (p = [] \<or> isLineTerminator (last p))
                \<longrightarrow> reAt True q = None)"
    using directive_line [of "js '' #if A'' @ [0x0A] @ js '' #if B''" T_if "js ''A''"]
    by (simp only: m2 n) simp
  have "\<forall>p q. js '' foo'' = p @ q \<and> (p = [] \<or> isLineTerminator (last p)) \<longrightarrow> reAt True q = None"
    using directive_line [of "js '' foo''"] m3 by blast
  then have c: "reAt True (js '' foo'') = None"
    by (metis append_Nil)
  show ?thesis using a b c m2 m3 by blast
qed

text \<open>
  C6 as stated fails: the block comment with the lines \<open>foo\<close> and \<open>#if true\<close> is a
  directive, and its first line holds no \<open>#\<close>.
\<close>

theorem directive_first_line_counterexample:
  "matchDirective True (js '' foo'' @ [0x0A] @ js '' #if true'') = Some (T_if, js ''true'')
   \<and> takeWhile (\<lambda>c. \<not> isLineTerminator c) (js '' foo'' @ [0x0A] @ js '' #if true'') = js '' foo''
   \<and> 0x23 \<notin> set (js '' foo'')"
  by (simp add: matchDirective_def reAt_def js_def isSpace_def reSpace_def tagWord_def
        reTail_def atEnd_def isLineTerminator_def)

section \<open>Validating a guard\<close>
lemma expression_keep [simp]:
  "expressionOf (pushChild a ob) = expressionOf ob" "expressionOf (pushElseIf a ob) = expressionOf ob"
  "expressionOf (setElse a ob) = expressionOf ob" "expressionOf (setEndif en ob) = expressionOf ob"
  by (cases ob; simp add: expressionOf_def pushChild_def pushElseIf_def setElse_def setEndif_def)+

lemma stored_update:
  "(\<And>ob. expressionOf (f ob) = expressionOf ob \<and> o_span (f ob) = o_span ob)
   \<Longrightarrow> stored (heap (update a f st)) b = stored (heap st) b"
  by (cases "a = b") (auto simp: stored_def deref_def update_def)

lemma stored_alloc_old:
  "alloc ob st = (a, st') \<Longrightarrow> stored (heap st) b = Some x \<Longrightarrow> stored (heap st') b = Some x"
  by (auto simp: stored_def deref_def alloc_def nth_append split: if_splits)

lemma stored_alloc_new:
  "alloc ob st = (a, st') \<Longrightarrow> a = length (heap st) \<and> stored (heap st') a = Some (expressionOf ob, o_span ob)"
  by (auto simp: stored_def deref_def alloc_def)

lemma stored_pushIf: "stored (heap (pushIf a st)) b = stored (heap st) b"
  by (simp add: pushIf_def Let_def stored_update)

lemma addError_heap [simp]: "heap (addError e st) = heap st"
  by (simp add: addError_def)

lemma invalids_simps [simp]:
  "invalids (update a f st) = invalids st" "invalids (setScope a st) = invalids st"
  "invalids (st\<lparr>heap := h\<rparr>) = invalids st"
  "invalids (st\<lparr>ifStack := i\<rparr>) = invalids st"
  "invalids (st\<lparr>scopeStack := sc\<rparr>) = invalids st"
  "invalids (st\<lparr>toplevel := tp\<rparr>) = invalids st"
  by (simp_all add: invalids_def)

lemma invalids_pushIf [simp]: "invalids (pushIf a st) = invalids st"
  by (simp add: pushIf_def Let_def invalids_def)

lemma invalids_addError:
  "invalids (addError e st) = invalids st @ (if e_subtype e = invalid_expression then [e] else [])"
  by (simp add: invalids_def)

lemma invalids_alloc: "alloc ob st = (a, st') \<Longrightarrow> invalids st' = invalids st"
  by (auto simp: alloc_def)

lemma currentIf_keeps:
  assumes "currentIf sub msg c st = (cur, st')" and "sub \<noteq> invalid_expression"
  shows "invalids st' = invalids st"
    and "stored (heap st) b = Some x \<Longrightarrow> stored (heap st') b = Some x"
proof -
  show "invalids st' = invalids st"
  proof (cases "ifStack st = []")
    case True
    obtain a st2 where al: "alloc (makeDummyIf c)
        (addError (parseError sub msg (c_line c) (c_column c)) st) = (a, st2)"
      by (cases "alloc (makeDummyIf c) (addError (parseError sub msg (c_line c) (c_column c)) st)")
    have "st' = pushIf a st2" using assms(1) True al by (auto simp: currentIf_def Let_def)
    then show ?thesis
      using invalids_alloc[OF al] assms(2) by (simp add: invalids_addError parseError_def)
  next
    case False
    then show ?thesis using assms(1) by (simp add: currentIf_def)
  qed
  show "stored (heap st) b = Some x \<Longrightarrow> stored (heap st') b = Some x"
  proof (cases "ifStack st = []")
    case True
    assume s: "stored (heap st) b = Some x"
    obtain a st2 where al: "alloc (makeDummyIf c)
        (addError (parseError sub msg (c_line c) (c_column c)) st) = (a, st2)"
      by (cases "alloc (makeDummyIf c) (addError (parseError sub msg (c_line c) (c_column c)) st)")
    have st': "st' = pushIf a st2" using assms(1) True al by (auto simp: currentIf_def Let_def)
    have "stored (heap (addError (parseError sub msg (c_line c) (c_column c)) st)) b = Some x"
      using s by simp
    from stored_alloc_old[OF al this] show ?thesis by (simp add: st' stored_pushIf)
  next
    case False
    assume "stored (heap st) b = Some x"
    then show ?thesis using False assms(1) by (simp add: currentIf_def)
  qed
qed

lemma parseExpression_iff:
  "parseExpression ac raw = Inr code \<longleftrightarrow>
     (\<exists>n. ac raw = Inr [n] \<and> n_type n = ''ExpressionStatement''
          \<and> code = slice raw (n_start n) (n_end n))"
  by (auto simp: parseExpression_def split: sum.splits list.splits)

lemma setExpression_effect:
  assumes "setExpression ac raw ty c st = (ex, st1)"
  shows "heap st1 = heap st"
    and "raw \<noteq> [] \<Longrightarrow> parseExpression ac raw = Inr code \<Longrightarrow> ex = code \<and> invalids st1 = invalids st"
    and "raw = [] \<or> (\<exists>m. parseExpression ac raw = Inl m) \<Longrightarrow>
          ex = [] \<and> (\<exists>m. invalids st1 = invalids st @ [parseError invalid_expression m (c_line c) (c_column c)])"
proof -
  have inv: "\<And>m. invalids (addError (parseError invalid_expression m (c_line c) (c_column c)) st)
      = invalids st @ [parseError invalid_expression m (c_line c) (c_column c)]"
    by (simp add: invalids_addError parseError_def)
  show "heap st1 = heap st"
    using assms by (cases "parseExpression ac raw") (auto simp: setExpression_def split: if_splits)
  show "raw \<noteq> [] \<Longrightarrow> parseExpression ac raw = Inr code \<Longrightarrow> ex = code \<and> invalids st1 = invalids st"
    using assms by (auto simp: setExpression_def)
  show "raw = [] \<or> (\<exists>m. parseExpression ac raw = Inl m) \<Longrightarrow>
          ex = [] \<and> (\<exists>m. invalids st1 = invalids st @ [parseError invalid_expression m (c_line c) (c_column c)])"
  proof (cases "raw = []")
    case True
    then have "ex = []" "st1 = addError (parseError invalid_expression
        (''Found #'' @ ty @ '' without expression.'') (c_line c) (c_column c)) st"
      using assms by (simp_all add: setExpression_def)
    then show ?thesis using inv by blast
  next
    case False
    assume "raw = [] \<or> (\<exists>m. parseExpression ac raw = Inl m)"
    then obtain m where m: "parseExpression ac raw = Inl m" using False by blast
    then have "ex = []" "st1 = addError (parseError invalid_expression m (c_line c) (c_column c)) st"
      using assms False by (simp_all add: setExpression_def)
    then show ?thesis using inv by blast
  qed
qed

lemma onComment_guard:
  assumes m: "matchDirective (c_isBlock c) (c_text c) = Some (t, raw)"
    and t: "t = T_if \<or> t = T_elseif"
    and se: "setExpression ac raw (if t = T_if then ''if'' else ''elseif'') c st = (ex, st1)"
  shows "stored (heap (onComment ac st c)) (length (heap st)) = Some (Some ex, commentSpan c)
         \<and> invalids (onComment ac st c) = invalids st1"
proof (cases "t = T_if")
  case True
  obtain a st2 where al: "alloc (IfObj (commentSpan c) ex None None None noEndif False) st1 = (a, st2)"
    by (cases "alloc (IfObj (commentSpan c) ex None None None noEndif False) st1")
  have oc: "onComment ac st c = pushIf a st2"
    using m True se al by (simp add: onComment_def)
  from stored_alloc_new[OF al] setExpression_effect(1)[OF se] invalids_alloc[OF al]
  show ?thesis by (auto simp: oc stored_pushIf expressionOf_def)
next
  case False
  then have te: "t = T_elseif" using t by simp
  obtain b st2 where al: "alloc (ElseIfObj (commentSpan c) ex None) st1 = (b, st2)"
    by (cases "alloc (ElseIfObj (commentSpan c) ex None) st1")
  obtain cur st3 where cu: "currentIf elseif_without_if ''Found #elseif without matching #if.'' c st2 = (cur, st3)"
    by (cases "currentIf elseif_without_if ''Found #elseif without matching #if.'' c st2")
  define st4 where "st4 = (if hasElse (heap st3) cur
       then addError (parseError elseif_after_else
              ''Found invalid #elseif after #else.'' (c_line c) (c_column c)) st3
       else st3)"
  have oc: "onComment ac st c = setScope b (update cur (pushElseIf b) st4)"
    using m te se al cu by (simp add: onComment_def st4_def)
  have s2: "stored (heap st2) (length (heap st)) = Some (Some ex, commentSpan c)" "b = length (heap st)"
    using stored_alloc_new[OF al] setExpression_effect(1)[OF se] by (auto simp: expressionOf_def)
  have s3: "stored (heap st3) (length (heap st)) = Some (Some ex, commentSpan c)"
    using currentIf_keeps(2)[OF cu _ s2(1)] by simp
  have i3: "invalids st3 = invalids st1"
    using currentIf_keeps(1)[OF cu] invalids_alloc[OF al] by simp
  have s4: "stored (heap st4) (length (heap st)) = Some (Some ex, commentSpan c)"
    "invalids st4 = invalids st1"
    using s3 i3 by (simp_all add: st4_def invalids_addError parseError_def)
  show ?thesis using s4 by (simp add: oc stored_update)
qed

text \<open>
  What the validation does. \<open>parseExpression\<close> returns a text exactly when the expression
  parser returns one statement and that is an expression statement, and the text is then
  the input sliced to the span of that statement. At an \<open>#if\<close> or \<open>#elseif\<close> comment
  whose guard is taken, the new block (at the next free address) holds that text and no
  \<open>invalid_expression\<close> entry is added; when the guard text is empty or refused the block
  holds the empty text and one \<open>invalid_expression\<close> entry with the line and column of
  the comment is added.
\<close>

lemma guard_stored:
  "(parseExpression ac raw = Inr code \<longleftrightarrow>
      (\<exists>n. ac raw = Inr [n] \<and> n_type n = ''ExpressionStatement''
           \<and> code = slice raw (n_start n) (n_end n)))
   \<and> (matchDirective (c_isBlock c) (c_text c) = Some (t, raw) \<and> (t = T_if \<or> t = T_elseif)
        \<and> raw \<noteq> [] \<and> parseExpression ac raw = Inr code
      \<longrightarrow> stored (heap (onComment ac st c)) (length (heap st)) = Some (Some code, commentSpan c)
          \<and> invalids (onComment ac st c) = invalids st)
   \<and> (matchDirective (c_isBlock c) (c_text c) = Some (t, raw) \<and> (t = T_if \<or> t = T_elseif)
        \<and> (raw = [] \<or> (\<exists>m. parseExpression ac raw = Inl m))
      \<longrightarrow> stored (heap (onComment ac st c)) (length (heap st)) = Some (Some [], commentSpan c)
          \<and> (\<exists>m. invalids (onComment ac st c)
                = invalids st @ [\<lparr>e_type = ''parse'', e_subtype = invalid_expression,
                                   e_message = m, e_line = c_line c, e_column = c_column c\<rparr>]))"
proof (intro conjI impI)
  show "parseExpression ac raw = Inr code \<longleftrightarrow>
      (\<exists>n. ac raw = Inr [n] \<and> n_type n = ''ExpressionStatement''
           \<and> code = slice raw (n_start n) (n_end n))"
    by (rule parseExpression_iff)
next
  assume a: "matchDirective (c_isBlock c) (c_text c) = Some (t, raw) \<and> (t = T_if \<or> t = T_elseif)
        \<and> raw \<noteq> [] \<and> parseExpression ac raw = Inr code"
  obtain ex st1 where se: "setExpression ac raw (if t = T_if then ''if'' else ''elseif'') c st = (ex, st1)"
    by (cases "setExpression ac raw (if t = T_if then ''if'' else ''elseif'') c st")
  from a have m: "matchDirective (c_isBlock c) (c_text c) = Some (t, raw)"
    and t: "t = T_if \<or> t = T_elseif" by simp_all
  from onComment_guard[OF m t se] a setExpression_effect(2)[OF se, of code]
  show "stored (heap (onComment ac st c)) (length (heap st)) = Some (Some code, commentSpan c)"
    and "invalids (onComment ac st c) = invalids st"
    by simp_all
next
  assume a: "matchDirective (c_isBlock c) (c_text c) = Some (t, raw) \<and> (t = T_if \<or> t = T_elseif)
        \<and> (raw = [] \<or> (\<exists>m. parseExpression ac raw = Inl m))"
  obtain ex st1 where se: "setExpression ac raw (if t = T_if then ''if'' else ''elseif'') c st = (ex, st1)"
    by (cases "setExpression ac raw (if t = T_if then ''if'' else ''elseif'') c st")
  from a have m: "matchDirective (c_isBlock c) (c_text c) = Some (t, raw)"
    and t: "t = T_if \<or> t = T_elseif" by simp_all
  from onComment_guard[OF m t se] a setExpression_effect(3)[OF se]
  show "stored (heap (onComment ac st c)) (length (heap st)) = Some (Some [], commentSpan c)"
    and "\<exists>m. invalids (onComment ac st c)
                = invalids st @ [\<lparr>e_type = ''parse'', e_subtype = invalid_expression,
                                   e_message = m, e_line = c_line c, e_column = c_column c\<rparr>]"
    by (auto simp: parseError_def)
qed

lemma semi_match:
  "matchDirective False (js '' #if A;'') = Some (T_if, js ''A;'')"
  "matchDirective False (js '' #endif'') = Some (T_endif, [])"
  by (simp_all add: matchDirective_def reAt_def js_def isSpace_def reSpace_def tagWord_def
      reTail_def atEnd_def isLineTerminator_def)

lemma semi_parse: "parseExpression semiAcorn (js ''A;'') = Inr (js ''A;'')"
  by (simp add: parseExpression_def semiAcorn_def slice_def relIndex_def js_def)

lemma semi_scan:
  "scan semiAcorn [lineComment '' #if A;'' 0 9 1, lineComment '' #endif'' 10 19 2] =
     \<lparr>heap = [IfObj \<lparr>s_start = 0, s_end = 9, s_line = 1, s_column = 0\<rparr> (js ''A;'') None None None
                \<lparr>s_start = 10, s_end = 19, s_line = 2, s_column = 0\<rparr> False],
      toplevel = [0], ifStack = [], scopeStack = [], errors = []\<rparr>"
proof -
  have n: "js ''A;'' \<noteq> []" by (simp add: js_def)
  show ?thesis
    by (simp add: scan_def onComment_def lineComment_def semi_match
        setExpression_def semi_parse n alloc_def pushIf_def initial_def update_def
        commentSpan_def setEndif_def noEndif_def Let_def)
qed

text \<open>
  C7. On acceptance the stored guard text is claimed to be the input sliced to the span of
  the expression. The source slices to the span of the statement: for the guard \<open>A;\<close>
  the parser returns one expression statement over both characters, whose expression is
  the first, and the block stores \<open>A;\<close> with no error recorded. The program then holds
  \<open>if (A;)\<close>, which the host refuses: the call fails at line 0, column 0.
\<close>

theorem guard_text_keeps_semicolon:
  "semiAcorn (js ''A;'')
     = Inr [\<lparr>n_type = ''ExpressionStatement'', n_start = 0, n_end = 2, n_expression = Some (0, 1)\<rparr>]
   \<and> slice (js ''A;'') 0 1 = js ''A''
   \<and> parseExpression semiAcorn (js ''A;'') = Inr (js ''A;'')
   \<and> matchDirective False (js '' #if A;'') = Some (T_if, js ''A;'')
   \<and> scan semiAcorn [lineComment '' #if A;'' 0 9 1, lineComment '' #endif'' 10 19 2] =
       \<lparr>heap = [IfObj \<lparr>s_start = 0, s_end = 9, s_line = 1, s_column = 0\<rparr> (js ''A;'') None None
                   None \<lparr>s_start = 10, s_end = 19, s_line = 2, s_column = 0\<rparr> False],
        toplevel = [0], ifStack = [], scopeStack = [], errors = []\<rparr>
   \<and> condCompSync (semiHost [lineComment '' #if A;'' 0 9 1, lineComment '' #endif'' 10 19 2])
        (js ''// #if A;'' @ [0x0A] @ js ''// #endif'') False
       = (Inl (CondCompEvalError 0 0 (Orig 0)), False)
   \<and> condComp (semiHost [lineComment '' #if A;'' 0 9 1, lineComment '' #endif'' 10 19 2])
        (js ''// #if A;'' @ [0x0A] @ js ''// #endif'') False
       = (Inl (CondCompEvalError 0 0 (Orig 0)), False)"
proof -
  have p: "parseCode (semiHost [lineComment '' #if A;'' 0 9 1, lineComment '' #endif'' 10 19 2])
        (js ''// #if A;'' @ [0x0A] @ js ''// #endif'')
      = Inr [IfBlock \<lparr>s_start = 0, s_end = 9, s_line = 1, s_column = 0\<rparr> (js ''A;'') None None
               None None \<lparr>s_start = 10, s_end = 19, s_line = 2, s_column = 0\<rparr> False]"
    by (simp add: parseCode_def semiHost_def sampleHost_def parse_def semi_scan finalErrors_def
        deref_def)
  have e: "evaluateIfsSync (semiHost [lineComment '' #if A;'' 0 9 1, lineComment '' #endif'' 10 19 2])
        [IfBlock \<lparr>s_start = 0, s_end = 9, s_line = 1, s_column = 0\<rparr> (js ''A;'') None None
               None None \<lparr>s_start = 10, s_end = 19, s_line = 2, s_column = 0\<rparr> False] False
      = (Inl (CondCompEvalError 0 0 (Orig 0)), False, [])"
    "evaluateIfs (semiHost [lineComment '' #if A;'' 0 9 1, lineComment '' #endif'' 10 19 2])
        [IfBlock \<lparr>s_start = 0, s_end = 9, s_line = 1, s_column = 0\<rparr> (js ''A;'') None None
               None None \<lparr>s_start = 10, s_end = 19, s_line = 2, s_column = 0\<rparr> False] False
      = (Inl (CondCompEvalError 0 0 (Orig 0)), False, [])"
    by (simp_all add: evaluateIfsSync_def evaluateIfs_def runInContext_def semiHost_def
        sampleHost_def makeEvaluationError_def)
  have s: "slice (js ''A;'') 0 1 = js ''A''"
    by (simp add: slice_def relIndex_def js_def)
  have a: "semiAcorn (js ''A;'')
     = Inr [\<lparr>n_type = ''ExpressionStatement'', n_start = 0, n_end = 2, n_expression = Some (0, 1)\<rparr>]"
    by (simp add: semiAcorn_def)
  have c: "condCompSync (semiHost [lineComment '' #if A;'' 0 9 1, lineComment '' #endif'' 10 19 2])
        (js ''// #if A;'' @ [0x0A] @ js ''// #endif'') False
       = (Inl (CondCompEvalError 0 0 (Orig 0)), False)"
    "condComp (semiHost [lineComment '' #if A;'' 0 9 1, lineComment '' #endif'' 10 19 2])
        (js ''// #if A;'' @ [0x0A] @ js ''// #endif'') False
       = (Inl (CondCompEvalError 0 0 (Orig 0)), False)"
    by (simp_all only: condCompSync_def condComp_def p e sum.case)
       (simp_all add: finish_def awaited_def semiHost_def sampleHost_def)
  show ?thesis
    using a s semi_parse semi_match(1) semi_scan c by simp
qed

section \<open>What every run does\<close>

lemmas block_induct =
  guards_guardsIf_guardsChildren_guardsElseIfs_guardsElseIfsOpt_guardsElse.induct

lemma guardOf_step [simp]: "guardOf (sp, ex, cb) = (sp, ex)"
  unfolding guardOf_def by simp

lemma steps_append [simp]: "steps (tr1 @ tr2) = steps tr1 @ steps tr2"
  by (induction tr1 rule: steps.induct) simp_all

lemma awaited_cases:
  "awaited aw x = (r, c', tr) \<Longrightarrow>
     \<exists>c0 t0. x = (r, c0, t0) \<and> steps tr = steps t0
        \<and> (aw = None \<longrightarrow> c' = c0 \<and> tr = t0)
        \<and> (\<forall>f. aw = Some f \<longrightarrow> c' = f c0 \<and> tr = t0 @ [Suspended c0])"
  by (cases aw; cases x) (auto simp: awaited_def)

lemma final_append [simp]: "final g f c (tr1 @ tr2) = final g f (final g f c tr1) tr2"
  by (induction g f c tr1 rule: final.induct) auto

lemma threaded_append [simp]:
  "threaded g f c (tr1 @ tr2) = (threaded g f c tr1 \<and> threaded g f (final g f c tr1) tr2)"
  by (induction g f c tr1 rule: threaded.induct) auto



lemma subseq_app1: "subseq xs ys \<Longrightarrow> subseq xs (ys @ zs)"
  by (rule subseq_rev_drop_many)

lemma subseq_app2: "subseq xs zs \<Longrightarrow> subseq xs (ys @ zs)"
  by (rule subseq_drop_many)

lemma subseq_app: "subseq xs ys \<Longrightarrow> subseq xs' ys' \<Longrightarrow> subseq (xs @ xs') (ys @ ys')"
  by (rule list_emb_append_mono)

lemma run_subseq:
  fixes g :: "('c, 'e) guard"
  shows "runIfs g aw bs c = (r1, c', tr) \<Longrightarrow> subseq (map guardOf (steps tr)) (guards bs)"
    and "runIf g aw b c = (r2, c', tr) \<Longrightarrow> subseq (map guardOf (steps tr)) (guardsIf b)"
    and "runChildren g aw ch c = (r3, c', tr)
           \<Longrightarrow> subseq (map guardOf (steps tr)) (guardsChildren ch)"
    and "runElseIfs g aw es k c = (r4, c', tr)
           \<Longrightarrow> subseq (map guardOf (steps tr)) (guardsElseIfs es)"
    and "runElseIfsOpt g aw eis c = (r5, c', tr)
           \<Longrightarrow> subseq (map guardOf (steps tr)) (guardsElseIfsOpt eis)"
    and "runElse g aw el c = (r6, c', tr) \<Longrightarrow> subseq (map guardOf (steps tr)) (guardsElse el)"
proof (induction bs and b and ch and es and eis and el
    arbitrary: c r1 c' tr and c r2 c' tr and c r3 c' tr and c k r4 c' tr and c r5 c' tr
      and c r6 c' tr
    rule: block_induct)
  case (2 b bs)
  obtain r c1 t where rb: "runIf g aw b c = (r, c1, t)" by (cases "runIf g aw b c")
  obtain r' c2 t' where rs: "runIfs g aw bs c1 = (r', c2, t')" by (cases "runIfs g aw bs c1")
  have a: "subseq (map guardOf (steps t)) (guardsIf b @ guards bs)"
    using "2.IH"(1)[OF rb] by (rule subseq_app1)
  have b: "subseq (map guardOf (steps (t @ t'))) (guardsIf b @ guards bs)"
    using "2.IH"(1)[OF rb] "2.IH"(2)[OF rs] by (auto intro!: subseq_app)
  have "tr = t \<or> tr = t @ t'"
    using rb rs "2.prems" by (auto split: sum.splits)
  then show ?case using a b by auto
next
  case (4 cs)
  then show ?case by (auto split: prod.splits sum.splits)
next
  case (5 sp ex tk ch eis el en d)
  from awaited_cases[OF "5.prems"[unfolded runIf.simps]] obtain c0 t0 where
    body: "runBody g aw (IfBlock sp ex tk ch eis el en d) c = (r2, c0, t0)"
    and st: "steps tr = steps t0" by blast
  obtain o1 c1 where g: "g ex c = (o1, c1)" by (cases "g ex c")
  have "subseq (map guardOf (steps t0)) (guardsIf (IfBlock sp ex tk ch eis el en d))"
  proof (cases o1)
    case (Inl e)
    then show ?thesis using g body by auto
  next
    case (Inr v)
    show ?thesis
    proof (cases v)
      case True
      obtain r c2 t where rc: "runChildren g aw ch c1 = (r, c2, t)"
        by (cases "runChildren g aw ch c1")
      from "5.IH"(1)[OF rc]
      have "subseq (map guardOf (steps t)) (guardsChildren ch @ guardsElseIfsOpt eis @ guardsElse el)"
        by (rule subseq_app1)
      moreover have "t0 = Evaluated (sp, ex, c) # t"
        using g Inr True rc body by (auto split: sum.splits)
      ultimately show ?thesis by simp
    next
      case False
      obtain r c2 t where re: "runElseIfsOpt g aw eis c1 = (r, c2, t)"
        by (cases "runElseIfsOpt g aw eis c1")
      obtain r' c3 t' where rl: "runElse g aw el c2 = (r', c3, t')"
        by (cases "runElse g aw el c2")
      have a: "subseq (map guardOf (steps t)) (guardsChildren ch @ guardsElseIfsOpt eis @ guardsElse el)"
        using "5.IH"(2)[OF re] by (intro subseq_app2 subseq_app1)
      have b: "subseq (map guardOf (steps (t @ t')))
          (guardsChildren ch @ guardsElseIfsOpt eis @ guardsElse el)"
        using subseq_app2[OF subseq_app[OF "5.IH"(2)[OF re] "5.IH"(3)[OF rl]], of "guardsChildren ch"]
        by simp
      have "t0 = Evaluated (sp, ex, c) # t \<or> t0 = Evaluated (sp, ex, c) # t @ t'"
        using g Inr False re rl body by (auto split: sum.splits option.splits)
      then show ?thesis using a b by auto
    qed
  qed
  then show ?case using st by simp
next
  case (7 sp ex ch es)
  obtain o1 c1 where g: "g ex c = (o1, c1)" by (cases "g ex c")
  show ?case
  proof (cases o1)
    case (Inl e)
    then show ?thesis using g "7.prems" by auto
  next
    case (Inr v)
    show ?thesis
    proof (cases v)
      case True
      obtain r c2 t where rc: "runChildren g aw ch c1 = (r, c2, t)"
        by (cases "runChildren g aw ch c1")
      from "7.IH"(1)[OF rc]
      have "subseq (map guardOf (steps t)) (guardsChildren ch @ guardsElseIfs es)"
        by (rule subseq_app1)
      moreover have "tr = Evaluated (sp, ex, c) # t"
        using g Inr True rc "7.prems" by (auto split: sum.splits)
      ultimately show ?thesis by simp
    next
      case False
      obtain r c2 t where re: "runElseIfs g aw es (k + 1) c1 = (r, c2, t)"
        by (cases "runElseIfs g aw es (k + 1) c1")
      from "7.IH"(2)[OF re]
      have "subseq (map guardOf (steps t)) (guardsChildren ch @ guardsElseIfs es)"
        by (rule subseq_app2)
      moreover have "tr = Evaluated (sp, ex, c) # t"
        using g Inr False re "7.prems" by auto
      ultimately show ?thesis by simp
    qed
  qed
qed simp_all

lemma subseq_set: "subseq xs ys \<Longrightarrow> set xs \<subseteq> set ys"
  by (auto dest: list_emb_set)

lemma run_within:
  fixes g :: "('c, 'e) guard"
  shows "runIfs g aw bs c = (r1, c', tr) \<Longrightarrow> guardOf ` set (steps tr) \<subseteq> set (guards bs)"
    and "runIf g aw b c = (r2, c', tr) \<Longrightarrow> guardOf ` set (steps tr) \<subseteq> set (guardsIf b)"
    and "runChildren g aw ch c = (r3, c', tr)
           \<Longrightarrow> guardOf ` set (steps tr) \<subseteq> set (guardsChildren ch)"
    and "runElseIfs g aw es k c = (r4, c', tr)
           \<Longrightarrow> guardOf ` set (steps tr) \<subseteq> set (guardsElseIfs es)"
    and "runElseIfsOpt g aw eis c = (r5, c', tr)
           \<Longrightarrow> guardOf ` set (steps tr) \<subseteq> set (guardsElseIfsOpt eis)"
    and "runElse g aw el c = (r6, c', tr) \<Longrightarrow> guardOf ` set (steps tr) \<subseteq> set (guardsElse el)"
  using subseq_set[OF run_subseq(1)[of g aw bs c r1 c' tr]]
    subseq_set[OF run_subseq(2)[of g aw b c r2 c' tr]]
    subseq_set[OF run_subseq(3)[of g aw ch c r3 c' tr]]
    subseq_set[OF run_subseq(4)[of g aw es k c r4 c' tr]]
    subseq_set[OF run_subseq(5)[of g aw eis c r5 c' tr]]
    subseq_set[OF run_subseq(6)[of g aw el c r6 c' tr]]
  by simp_all



lemma calm_simps [simp]:
  "calm g []" "calm g (s # tr) = (thrownBy g s = None \<and> calm g tr)"
  "calm g (tr @ tr') = (calm g tr \<and> calm g tr')"
  by (simp_all add: calm_def)

lemma thrownBy_step:
  "g ex c = (Inl e, c1) \<Longrightarrow> thrownBy g (sp, ex, c) = Some e"
  "g ex c = (Inr v, c1) \<Longrightarrow> thrownBy g (sp, ex, c) = None"
  by (simp_all add: thrownBy_def)

lemma outcome_Inl [simp]:
  "outcome g (Inl w) tr = (tr \<noteq> [] \<and> thrownBy g (last tr) \<noteq> None \<and> calm g (butlast tr))"
  by (simp add: outcome_def)

lemma outcome_Inr [simp]: "outcome g (Inr v) tr = calm g tr"
  by (simp add: outcome_def)

lemma outcome_Cons:
  "thrownBy g s = None \<Longrightarrow> outcome g r tr \<Longrightarrow> outcome g (case r of Inl w \<Rightarrow> Inl (f w) | Inr v \<Rightarrow> Inr (h v)) (s # tr)"
  by (cases r) auto

lemma outcome_append:
  "calm g tr \<Longrightarrow> outcome g r tr' \<Longrightarrow> outcome g (case r of Inl w \<Rightarrow> Inl (f w) | Inr v \<Rightarrow> Inr (h v)) (tr @ tr')"
  by (cases r) (auto simp: butlast_append)

lemma run_outcome:
  fixes g :: "('c, 'e) guard"
  shows "runIfs g aw bs c = (r1, c', tr) \<Longrightarrow> outcome g r1 (steps tr)"
    and "runIf g aw b c = (r2, c', tr) \<Longrightarrow> outcome g r2 (steps tr)"
    and "runChildren g aw ch c = (r3, c', tr) \<Longrightarrow> outcome g r3 (steps tr)"
    and "runElseIfs g aw es k c = (r4, c', tr) \<Longrightarrow> outcome g r4 (steps tr)"
    and "runElseIfsOpt g aw eis c = (r5, c', tr) \<Longrightarrow> outcome g r5 (steps tr)"
    and "runElse g aw el c = (r6, c', tr) \<Longrightarrow> outcome g r6 (steps tr)"
proof (induction bs and b and ch and es and eis and el
    arbitrary: c r1 c' tr and c r2 c' tr and c r3 c' tr and c k r4 c' tr and c r5 c' tr
      and c r6 c' tr
    rule: block_induct)
  case (2 b bs)
  obtain r c1 t where rb: "runIf g aw b c = (r, c1, t)" by (cases "runIf g aw b c")
  obtain r' c2 t' where rs: "runIfs g aw bs c1 = (r', c2, t')" by (cases "runIfs g aw bs c1")
  note a = "2.IH"(1)[OF rb] and b = "2.IH"(2)[OF rs]
  show ?case
  proof (cases r)
    case (Inl w)
    then show ?thesis using a rb "2.prems" by auto
  next
    case (Inr v)
    then have "r1 = (case r' of Inl w \<Rightarrow> Inl w | Inr rs \<Rightarrow> Inr (v # rs))" "tr = t @ t'"
      using rb rs "2.prems" by (auto split: sum.splits)
    then show ?thesis using outcome_append[of g "steps t" r' "steps t'"] a b Inr by simp
  qed
next
  case (4 cs)
  obtain r c1 t where rb: "runIfs g aw cs c = (r, c1, t)" by (cases "runIfs g aw cs c")
  from "4.IH"[OF rb] rb "4.prems" show ?case by (cases r) auto
next
  case (5 sp ex tk ch eis el en d)
  from awaited_cases[OF "5.prems"[unfolded runIf.simps]] obtain c0 t0 where
    body: "runBody g aw (IfBlock sp ex tk ch eis el en d) c = (r2, c0, t0)"
    and st: "steps tr = steps t0" by blast
  obtain o1 c1 where g: "g ex c = (o1, c1)" by (cases "g ex c")
  have "outcome g r2 (steps t0)"
  proof (cases o1)
    case (Inl e)
    then show ?thesis using g body by (auto simp: thrownBy_step)
  next
    case (Inr v)
    have s: "thrownBy g (sp, ex, c) = None" using g Inr by (simp add: thrownBy_step)
    show ?thesis
    proof (cases v)
      case True
      obtain r c2 t where rc: "runChildren g aw ch c1 = (r, c2, t)"
        by (cases "runChildren g aw ch c1")
      have "r2 = (case r of Inl x \<Rightarrow> Inl (Wrapped x (s_line sp) (s_column sp))
                | Inr rs \<Rightarrow> Inr (Entry 0 rs))" "t0 = Evaluated (sp, ex, c) # t"
        using g Inr True rc body by (auto split: sum.splits)
      then show ?thesis using outcome_Cons[OF s "5.IH"(1)[OF rc]] by simp
    next
      case False
      obtain r c2 t where re: "runElseIfsOpt g aw eis c1 = (r, c2, t)"
        by (cases "runElseIfsOpt g aw eis c1")
      obtain r' c3 t' where rl: "runElse g aw el c2 = (r', c3, t')"
        by (cases "runElse g aw el c2")
      note a = "5.IH"(2)[OF re] and b = "5.IH"(3)[OF rl]
      show ?thesis
      proof (cases r)
        case (Inl w)
        then show ?thesis using a s g Inr False re body by auto
      next
        case r: (Inr m)
        show ?thesis
        proof (cases m)
          case (Some x)
          then show ?thesis using a s g Inr False re r body by auto
        next
          case None
          then have "r2 = (case r' of Inl x \<Rightarrow> Inl x | Inr rs \<Rightarrow> Inr (Entry (- 1) rs))"
            "t0 = Evaluated (sp, ex, c) # t @ t'"
            using g Inr False re rl r body by (auto split: sum.splits)
          moreover have "calm g ((sp, ex, c) # steps t)" using a r s by simp
          ultimately show ?thesis
            using outcome_append[of g "(sp, ex, c) # steps t" r' "steps t'"] b by simp
        qed
      qed
    qed
  qed
  then show ?case using st by simp
next
  case (7 sp ex ch es)
  obtain o1 c1 where g: "g ex c = (o1, c1)" by (cases "g ex c")
  show ?case
  proof (cases o1)
    case (Inl e)
    then show ?thesis using g "7.prems" by (auto simp: thrownBy_step)
  next
    case (Inr v)
    have s: "thrownBy g (sp, ex, c) = None" using g Inr by (simp add: thrownBy_step)
    show ?thesis
    proof (cases v)
      case True
      obtain r c2 t where rc: "runChildren g aw ch c1 = (r, c2, t)"
        by (cases "runChildren g aw ch c1")
      have "r4 = (case r of Inl x \<Rightarrow> Inl (Wrapped x (s_line sp) (s_column sp))
                | Inr rs \<Rightarrow> Inr (Some (Entry k rs)))" "tr = Evaluated (sp, ex, c) # t"
        using g Inr True rc "7.prems" by (auto split: sum.splits)
      then show ?thesis using outcome_Cons[OF s "7.IH"(1)[OF rc]] by simp
    next
      case False
      obtain r c2 t where re: "runElseIfs g aw es (k + 1) c1 = (r, c2, t)"
        by (cases "runElseIfs g aw es (k + 1) c1")
      have "r4 = r" "tr = Evaluated (sp, ex, c) # t"
        using g Inr False re "7.prems" by auto
      then show ?thesis using "7.IH"(2)[OF re] s by (cases r) auto
    qed
  qed
qed simp_all

lemma run_last:
  fixes g :: "('c, 'e) guard"
  shows "runIfs g aw bs c = (Inl w, c', tr)
           \<Longrightarrow> steps tr \<noteq> [] \<and> guardOf (last (steps tr)) \<in> set (guards bs)"
    and "runIf g aw b c = (Inl w, c', tr)
           \<Longrightarrow> steps tr \<noteq> [] \<and> guardOf (last (steps tr)) \<in> set (guardsIf b)"
    and "runChildren g aw ch c = (Inl w, c', tr)
           \<Longrightarrow> steps tr \<noteq> [] \<and> guardOf (last (steps tr)) \<in> set (guardsChildren ch)"
    and "runElseIfs g aw es k c = (Inl w, c', tr)
           \<Longrightarrow> steps tr \<noteq> [] \<and> guardOf (last (steps tr)) \<in> set (guardsElseIfs es)"
    and "runElseIfsOpt g aw eis c = (Inl w, c', tr)
           \<Longrightarrow> steps tr \<noteq> [] \<and> guardOf (last (steps tr)) \<in> set (guardsElseIfsOpt eis)"
    and "runElse g aw el c = (Inl w, c', tr)
           \<Longrightarrow> steps tr \<noteq> [] \<and> guardOf (last (steps tr)) \<in> set (guardsElse el)"
proof -
  have k: "\<And>gs. steps tr \<noteq> [] \<Longrightarrow> guardOf ` set (steps tr) \<subseteq> set gs
      \<Longrightarrow> guardOf (last (steps tr)) \<in> set gs"
    using last_in_set by blast
  show "runIfs g aw bs c = (Inl w, c', tr)
           \<Longrightarrow> steps tr \<noteq> [] \<and> guardOf (last (steps tr)) \<in> set (guards bs)"
    using run_outcome(1)[of g aw bs c "Inl w" c' tr] run_within(1)[of g aw bs c "Inl w" c' tr] k
    by simp
  show "runIf g aw b c = (Inl w, c', tr)
           \<Longrightarrow> steps tr \<noteq> [] \<and> guardOf (last (steps tr)) \<in> set (guardsIf b)"
    using run_outcome(2)[of g aw b c "Inl w" c' tr] run_within(2)[of g aw b c "Inl w" c' tr] k
    by simp
  show "runChildren g aw ch c = (Inl w, c', tr)
           \<Longrightarrow> steps tr \<noteq> [] \<and> guardOf (last (steps tr)) \<in> set (guardsChildren ch)"
    using run_outcome(3)[of g aw ch c "Inl w" c' tr] run_within(3)[of g aw ch c "Inl w" c' tr] k
    by simp
  show "runElseIfs g aw es k c = (Inl w, c', tr)
           \<Longrightarrow> steps tr \<noteq> [] \<and> guardOf (last (steps tr)) \<in> set (guardsElseIfs es)"
    using run_outcome(4)[of g aw es k c "Inl w" c' tr] run_within(4)[of g aw es k c "Inl w" c' tr] k
    by simp
  show "runElseIfsOpt g aw eis c = (Inl w, c', tr)
           \<Longrightarrow> steps tr \<noteq> [] \<and> guardOf (last (steps tr)) \<in> set (guardsElseIfsOpt eis)"
    using run_outcome(5)[of g aw eis c "Inl w" c' tr] run_within(5)[of g aw eis c "Inl w" c' tr] k
    by simp
  show "runElse g aw el c = (Inl w, c', tr)
           \<Longrightarrow> steps tr \<noteq> [] \<and> guardOf (last (steps tr)) \<in> set (guardsElse el)"
    using run_outcome(6)[of g aw el c "Inl w" c' tr] run_within(6)[of g aw el c "Inl w" c' tr] k
    by simp
qed

lemma heads_guards: "set (heads es) \<subseteq> set (guardsElseIfs es)"
proof (induction es)
  case Nil
  show ?case by (simp add: heads_def)
next
  case (Cons e es)
  then show ?case by (cases e) (auto simp: heads_def)
qed

lemma heads_opt:
  "set (heads (case eis of None \<Rightarrow> [] | Some es \<Rightarrow> es)) \<subseteq> set (guardsElseIfsOpt eis)"
  using heads_guards by (cases eis) (auto simp: heads_def)











section \<open>The order of evaluation\<close>



















section \<open>Failures of the evaluation\<close>

lemma direct_guards:
  "set (directGuards bs) \<subseteq> set (guards bs)"
  "set (directIf b) \<subseteq> set (guardsIf b)"
  "set (directChildren ch) \<subseteq> set (guardsChildren ch)"
  "set (directElse el) \<subseteq> set (guardsElse el)"
proof (induction bs and b and ch and el rule: directGuards_directIf_directChildren_directElse.induct)
  case (5 sp ex tk ch eis el en d)
  have "set (heads (case eis of None \<Rightarrow> [] | Some es \<Rightarrow> es)) \<subseteq> set (guardsElseIfsOpt eis)"
    using heads_guards by (cases eis) (auto simp: heads_def)
  then show ?case using 5 by (auto simp: heads_def)
qed auto

lemma pinned_last:
  "tr' \<noteq> [] \<Longrightarrow> pinned g w (tr @ tr') = pinned g w tr'"
  "tr' \<noteq> [] \<Longrightarrow> pinned g w (s # tr') = pinned g w tr'"
  by (simp_all add: pinned_def)

lemma direct_failure:
  fixes g :: "('c, 'e) guard"
  shows "runIfs g aw bs c = (Inl w, c', tr) \<Longrightarrow> distinct (guards bs)
           \<Longrightarrow> guardOf (last (steps tr)) \<in> set (directGuards bs) \<Longrightarrow> pinned g w (steps tr)"
    and "runIf g aw b c = (Inl w, c', tr) \<Longrightarrow> distinct (guardsIf b)
           \<Longrightarrow> guardOf (last (steps tr)) \<in> set (directIf b) \<Longrightarrow> pinned g w (steps tr)"
    and "runChildren g aw ch c = (Inl w, c', tr) \<Longrightarrow> distinct (guardsChildren ch)
           \<Longrightarrow> guardOf (last (steps tr)) \<in> set (directChildren ch) \<Longrightarrow> pinned g w (steps tr)"
    and "runElseIfs g aw es k c = (Inl w, c', tr) \<Longrightarrow> distinct (guardsElseIfs es)
           \<Longrightarrow> guardOf (last (steps tr)) \<in> set (heads es) \<Longrightarrow> pinned g w (steps tr)"
    and "runElseIfsOpt g aw eis c = (Inl w, c', tr) \<Longrightarrow> distinct (guardsElseIfsOpt eis)
           \<Longrightarrow> guardOf (last (steps tr)) \<in> set (heads (case eis of None \<Rightarrow> [] | Some es \<Rightarrow> es))
           \<Longrightarrow> pinned g w (steps tr)"
    and "runElse g aw el c = (Inl w, c', tr) \<Longrightarrow> distinct (guardsElse el)
           \<Longrightarrow> guardOf (last (steps tr)) \<in> set (directElse el) \<Longrightarrow> pinned g w (steps tr)"
proof (induction bs and b and ch and es and eis and el
    arbitrary: c w c' tr and c w c' tr and c w c' tr and c k w c' tr and c w c' tr
      and c w c' tr
    rule: block_induct)
  case (2 b bs)
  obtain r c1 t where rb: "runIf g aw b c = (r, c1, t)" by (cases "runIf g aw b c")
  have dis: "distinct (guardsIf b)" "distinct (guards bs)" "set (guardsIf b) \<inter> set (guards bs) = {}"
    using "2.prems"(2) by auto
  show ?case
  proof (cases r)
    case (Inl x)
    then have eq: "w = x" "tr = t" using rb "2.prems"(1) by auto
    have "guardOf (last (steps t)) \<in> set (guardsIf b)"
      using run_last(2)[of g aw b c x c1 t] rb Inl by simp
    then have "guardOf (last (steps t)) \<in> set (directIf b)"
      using "2.prems"(3) eq dis(3) direct_guards(1)[of bs] by auto
    then show ?thesis using "2.IH"(1)[of c x c1 t] rb Inl dis(1) eq by simp
  next
    case (Inr v)
    obtain r' c2 t' where rs: "runIfs g aw bs c1 = (r', c2, t')" by (cases "runIfs g aw bs c1")
    have eq: "r' = Inl w" "tr = t @ t'" using rb rs Inr "2.prems"(1) by (auto split: sum.splits)
    have l: "steps t' \<noteq> []" "guardOf (last (steps t')) \<in> set (guards bs)"
      using run_last(1)[of g aw bs c1 w c2 t'] rs eq by simp_all
    then have "guardOf (last (steps t')) \<in> set (directGuards bs)"
      using "2.prems"(3) eq dis(3) direct_guards(2)[of b] by auto
    then have "pinned g w (steps t')" using "2.IH"(2)[of c1 w c2 t'] rs eq dis(2) by simp
    then show ?thesis using l(1) eq by (simp add: pinned_last)
  qed
next
  case (4 cs)
  obtain r c1 t where rb: "runIfs g aw cs c = (r, c1, t)" by (cases "runIfs g aw cs c")
  then have "r = Inl w" "tr = t" using "4.prems"(1) by (auto split: sum.splits)
  then show ?case using "4.IH"[of c w c1 t] rb "4.prems" by simp
next
  case (5 sp ex tk ch eis el en d)
  from awaited_cases[OF "5.prems"(1)[unfolded runIf.simps]] obtain c0 t0 where
    body: "runBody g aw (IfBlock sp ex tk ch eis el en d) c = (Inl w, c0, t0)"
    and st: "steps tr = steps t0" by blast
  obtain o1 c1 where g: "g ex c = (o1, c1)" by (cases "g ex c")
  have dis: "(sp, ex) \<notin> set (guardsChildren ch)" "(sp, ex) \<notin> set (guardsElseIfsOpt eis)"
    "(sp, ex) \<notin> set (guardsElse el)"
    "distinct (guardsChildren ch)" "distinct (guardsElseIfsOpt eis)" "distinct (guardsElse el)"
    "set (guardsChildren ch) \<inter> set (guardsElseIfsOpt eis) = {}"
    "set (guardsChildren ch) \<inter> set (guardsElse el) = {}"
    "set (guardsElseIfsOpt eis) \<inter> set (guardsElse el) = {}"
    using "5.prems"(2) by auto
  have dir: "guardOf (last (steps t0)) = (sp, ex)
      \<or> guardOf (last (steps t0)) \<in> set (heads (case eis of None \<Rightarrow> [] | Some es \<Rightarrow> es))
      \<or> guardOf (last (steps t0)) \<in> set (directElse el)"
    using "5.prems"(3) st by (auto simp: heads_def)
  have "pinned g w (steps t0)"
  proof (cases o1)
    case (Inl e)
    then have "w = Wrapped (Orig e) (s_line sp) (s_column sp)" "steps t0 = [(sp, ex, c)]"
      using g body by auto
    then show ?thesis using g Inl by (simp add: pinned_def thrownBy_step)
  next
    case (Inr v)
    show ?thesis
    proof (cases v)
      case True
      obtain r c2 t where rc: "runChildren g aw ch c1 = (r, c2, t)"
        by (cases "runChildren g aw ch c1")
      then obtain x where eq: "r = Inl x" "steps t0 = (sp, ex, c) # steps t"
        using g Inr True body by (auto split: sum.splits)
      have "steps t \<noteq> []" "guardOf (last (steps t)) \<in> set (guardsChildren ch)"
        using run_last(3)[of g aw ch c1 x c2 t] rc eq by simp_all
      then have False
        using dir eq dis heads_opt[of eis] direct_guards(4)[of el] by auto
      then show ?thesis ..
    next
      case False
      obtain r c2 t where re: "runElseIfsOpt g aw eis c1 = (r, c2, t)"
        by (cases "runElseIfsOpt g aw eis c1")
      obtain r' c3 t' where rl: "runElse g aw el c2 = (r', c3, t')"
        by (cases "runElse g aw el c2")
      show ?thesis
      proof (cases r)
        case (Inl x)
        then have eq: "w = x" "steps t0 = (sp, ex, c) # steps t"
          using g Inr False re body by auto
        have l: "steps t \<noteq> []" "guardOf (last (steps t)) \<in> set (guardsElseIfsOpt eis)"
          using run_last(5)[of g aw eis c1 x c2 t] re Inl by simp_all
        then have "guardOf (last (steps t)) \<in> set (heads (case eis of None \<Rightarrow> [] | Some es \<Rightarrow> es))"
          using dir eq dis direct_guards(4)[of el] by auto
        then have "pinned g w (steps t)" using "5.IH"(2)[of c1 x c2 t] re Inl dis(5) eq by simp
        then show ?thesis using l(1) eq by (simp add: pinned_last)
      next
        case r: (Inr m)
        show ?thesis
        proof (cases m)
          case (Some y)
          then show ?thesis using g Inr False re r body by auto
        next
          case None
          then have eq: "r' = Inl w" "steps t0 = (sp, ex, c) # steps t @ steps t'"
            using g Inr False re rl r body by (auto split: sum.splits)
          have l: "steps t' \<noteq> []" "guardOf (last (steps t')) \<in> set (guardsElse el)"
            using run_last(6)[of g aw el c2 w c3 t'] rl eq by simp_all
          then have "guardOf (last (steps t')) \<in> set (directElse el)"
            using dir eq dis heads_opt[of eis] by auto
          then have "pinned g w (steps t')" using "5.IH"(3)[of c2 w c3 t'] rl eq dis(6) by simp
          then show ?thesis
            using l(1) eq pinned_last(1)[of "steps t'" g w "(sp, ex, c) # steps t"] by simp
        qed
      qed
    qed
  qed
  then show ?case using st by simp
next
  case (7 sp ex ch es)
  obtain o1 c1 where g: "g ex c = (o1, c1)" by (cases "g ex c")
  have dis: "(sp, ex) \<notin> set (guardsChildren ch)" "(sp, ex) \<notin> set (guardsElseIfs es)"
    "distinct (guardsChildren ch)" "distinct (guardsElseIfs es)"
    "set (guardsChildren ch) \<inter> set (guardsElseIfs es) = {}"
    using "7.prems"(2) by auto
  have dir: "guardOf (last (steps tr)) = (sp, ex) \<or> guardOf (last (steps tr)) \<in> set (heads es)"
    using "7.prems"(3) by (auto simp: heads_def)
  show ?case
  proof (cases o1)
    case (Inl e)
    then have "w = Wrapped (Orig e) (s_line sp) (s_column sp)" "steps tr = [(sp, ex, c)]"
      using g "7.prems"(1) by auto
    then show ?thesis using g Inl by (simp add: pinned_def thrownBy_step)
  next
    case (Inr v)
    show ?thesis
    proof (cases v)
      case True
      obtain r c2 t where rc: "runChildren g aw ch c1 = (r, c2, t)"
        by (cases "runChildren g aw ch c1")
      then obtain x where eq: "r = Inl x" "steps tr = (sp, ex, c) # steps t"
        using g Inr True "7.prems"(1) by (auto split: sum.splits)
      have "steps t \<noteq> []" "guardOf (last (steps t)) \<in> set (guardsChildren ch)"
        using run_last(3)[of g aw ch c1 x c2 t] rc eq by simp_all
      then have False
        using dir eq dis heads_guards[of es] by auto
      then show ?thesis ..
    next
      case False
      obtain r c2 t where re: "runElseIfs g aw es (k + 1) c1 = (r, c2, t)"
        by (cases "runElseIfs g aw es (k + 1) c1")
      then have eq: "r = Inl w" "steps tr = (sp, ex, c) # steps t"
        using g Inr False "7.prems"(1) by auto
      have l: "steps t \<noteq> []" "guardOf (last (steps t)) \<in> set (guardsElseIfs es)"
        using run_last(4)[of g aw es "k + 1" c1 w c2 t] re eq by simp_all
      then have "guardOf (last (steps t)) \<in> set (heads es)"
        using dir eq dis by auto
      then have "pinned g w (steps t)" using "7.IH"(2)[of "k + 1" c1 w c2 t] re eq dis(4) by simp
      then show ?thesis using l(1) eq by (simp add: pinned_last)
    qed
  qed
next
  case (9 es)
  then show ?case by simp
next
  case (11 sp ch)
  then show ?case by simp
qed simp_all

lemma origin_last:
  "tr' \<noteq> [] \<Longrightarrow> thrownBy g (last tr') = Some (origin w)
     \<Longrightarrow> thrownBy g (last (tr @ tr')) = Some (origin w)"
  "tr' \<noteq> [] \<Longrightarrow> thrownBy g (last tr') = Some (origin w)
     \<Longrightarrow> thrownBy g (last (s # tr')) = Some (origin w)"
  by simp_all

lemma run_wrapped:
  fixes g :: "('c, 'e) guard"
  shows "runIfs g aw bs c = (Inl w, c', tr)
           \<Longrightarrow> (\<exists>x l k. w = Wrapped x l k) \<and> thrownBy g (last (steps tr)) = Some (origin w)"
    and "runIf g aw b c = (Inl w, c', tr)
           \<Longrightarrow> (\<exists>x l k. w = Wrapped x l k) \<and> thrownBy g (last (steps tr)) = Some (origin w)"
    and "runChildren g aw ch c = (Inl w, c', tr)
           \<Longrightarrow> (\<exists>x l k. w = Wrapped x l k) \<and> thrownBy g (last (steps tr)) = Some (origin w)"
    and "runElseIfs g aw es k' c = (Inl w, c', tr)
           \<Longrightarrow> (\<exists>x l k. w = Wrapped x l k) \<and> thrownBy g (last (steps tr)) = Some (origin w)"
    and "runElseIfsOpt g aw eis c = (Inl w, c', tr)
           \<Longrightarrow> (\<exists>x l k. w = Wrapped x l k) \<and> thrownBy g (last (steps tr)) = Some (origin w)"
    and "runElse g aw el c = (Inl w, c', tr)
           \<Longrightarrow> (\<exists>x l k. w = Wrapped x l k) \<and> thrownBy g (last (steps tr)) = Some (origin w)"
proof (induction bs and b and ch and es and eis and el
    arbitrary: c w c' tr and c w c' tr and c w c' tr and c k' w c' tr and c w c' tr
      and c w c' tr
    rule: block_induct)
  case (2 b bs)
  obtain r c1 t where rb: "runIf g aw b c = (r, c1, t)" by (cases "runIf g aw b c")
  show ?case
  proof (cases r)
    case (Inl x)
    then have "w = x" "tr = t" using rb "2.prems" by auto
    then show ?thesis using "2.IH"(1)[of c x c1 t] rb Inl by simp
  next
    case (Inr v)
    obtain r' c2 t' where rs: "runIfs g aw bs c1 = (r', c2, t')" by (cases "runIfs g aw bs c1")
    have eq: "r' = Inl w" "tr = t @ t'" using rb rs Inr "2.prems" by (auto split: sum.splits)
    have "steps t' \<noteq> []" using run_last(1)[of g aw bs c1 w c2 t'] rs eq by simp
    then show ?thesis using "2.IH"(2)[of c1 w c2 t'] rs eq by simp
  qed
next
  case (4 cs)
  obtain r c1 t where rb: "runIfs g aw cs c = (r, c1, t)" by (cases "runIfs g aw cs c")
  then have "r = Inl w" "tr = t" using "4.prems" by (auto split: sum.splits)
  then show ?case using "4.IH"[of c w c1 t] rb by simp
next
  case (5 sp ex tk ch eis el en d)
  from awaited_cases[OF "5.prems"[unfolded runIf.simps]] obtain c0 t0 where
    body: "runBody g aw (IfBlock sp ex tk ch eis el en d) c = (Inl w, c0, t0)"
    and st: "steps tr = steps t0" by blast
  obtain o1 c1 where g: "g ex c = (o1, c1)" by (cases "g ex c")
  have "(\<exists>x l k. w = Wrapped x l k) \<and> thrownBy g (last (steps t0)) = Some (origin w)"
  proof (cases o1)
    case (Inl e)
    then have "w = Wrapped (Orig e) (s_line sp) (s_column sp)" "steps t0 = [(sp, ex, c)]"
      using g body by auto
    then show ?thesis using g Inl by (simp add: thrownBy_step)
  next
    case (Inr v)
    show ?thesis
    proof (cases v)
      case True
      obtain r c2 t where rc: "runChildren g aw ch c1 = (r, c2, t)"
        by (cases "runChildren g aw ch c1")
      then obtain x where eq: "r = Inl x" "w = Wrapped x (s_line sp) (s_column sp)"
        "steps t0 = (sp, ex, c) # steps t"
        using g Inr True body by (auto split: sum.splits)
      have "steps t \<noteq> []" using run_last(3)[of g aw ch c1 x c2 t] rc eq by simp
      then show ?thesis using "5.IH"(1)[of c1 x c2 t] rc eq by simp
    next
      case False
      obtain r c2 t where re: "runElseIfsOpt g aw eis c1 = (r, c2, t)"
        by (cases "runElseIfsOpt g aw eis c1")
      obtain r' c3 t' where rl: "runElse g aw el c2 = (r', c3, t')"
        by (cases "runElse g aw el c2")
      show ?thesis
      proof (cases r)
        case (Inl x)
        then have eq: "w = x" "steps t0 = (sp, ex, c) # steps t"
          using g Inr False re body by auto
        have "steps t \<noteq> []" using run_last(5)[of g aw eis c1 x c2 t] re Inl by simp
        then show ?thesis using "5.IH"(2)[of c1 x c2 t] re Inl eq by simp
      next
        case r: (Inr m)
        show ?thesis
        proof (cases m)
          case (Some y)
          then show ?thesis using g Inr False re r body by auto
        next
          case None
          then have eq: "r' = Inl w" "steps t0 = (sp, ex, c) # steps t @ steps t'"
            using g Inr False re rl r body by (auto split: sum.splits)
          have "steps t' \<noteq> []" using run_last(6)[of g aw el c2 w c3 t'] rl eq by simp
          then show ?thesis using "5.IH"(3)[of c2 w c3 t'] rl eq by simp
        qed
      qed
    qed
  qed
  then show ?case using st by simp
next
  case (7 sp ex ch es)
  obtain o1 c1 where g: "g ex c = (o1, c1)" by (cases "g ex c")
  show ?case
  proof (cases o1)
    case (Inl e)
    then have "w = Wrapped (Orig e) (s_line sp) (s_column sp)" "steps tr = [(sp, ex, c)]"
      using g "7.prems" by auto
    then show ?thesis using g Inl by (simp add: thrownBy_step)
  next
    case (Inr v)
    show ?thesis
    proof (cases v)
      case True
      obtain r c2 t where rc: "runChildren g aw ch c1 = (r, c2, t)"
        by (cases "runChildren g aw ch c1")
      then obtain x where eq: "r = Inl x" "w = Wrapped x (s_line sp) (s_column sp)"
        "steps tr = (sp, ex, c) # steps t"
        using g Inr True "7.prems" by (auto split: sum.splits)
      have "steps t \<noteq> []" using run_last(3)[of g aw ch c1 x c2 t] rc eq by simp
      then show ?thesis using "7.IH"(1)[of c1 x c2 t] rc eq by simp
    next
      case False
      obtain r c2 t where re: "runElseIfs g aw es (k' + 1) c1 = (r, c2, t)"
        by (cases "runElseIfs g aw es (k' + 1) c1")
      then have eq: "r = Inl w" "steps tr = (sp, ex, c) # steps t"
        using g Inr False "7.prems" by auto
      have "steps t \<noteq> []" using run_last(4)[of g aw es "k' + 1" c1 w c2 t] re eq by simp
      then show ?thesis using "7.IH"(2)[of "k' + 1" c1 w c2 t] re eq by simp
    qed
  qed
qed simp_all

lemma evaluate_mode:
  "(if sync then evaluateIfsSync h bs c else evaluateIfs h bs c)
     = (case runInContext h sync bs c of
          (Inl e, c', tr) \<Rightarrow> (Inl (makeEvaluationError h (Orig e) 0 0), c', tr)
        | (Inr result, c', tr) \<Rightarrow>
            awaited (awaitOf h sync) (setEvaluationResults h bs result, c', tr))"
  by (simp add: evaluateIfs_def evaluateIfsSync_def awaited_def awaitOf_def
      split: prod.splits sum.splits)

lemma calm_butlast: "calm g tr \<Longrightarrow> calm g (butlast tr)"
  by (auto simp: calm_def list_all_iff dest: in_set_butlastD)

lemma evaluate_run:
  assumes "(if sync then evaluateIfsSync h bs c else evaluateIfs h bs c) = (res, c', tr)"
    and "list_all (\<lambda>(sp, ex). accepts h sync ex) (guards bs)"
  obtains r c0 t0 where "runIfs (evalGuard h sync) (awaitOf h sync) bs c = (r, c0, t0)"
    and "res = setEvaluationResults h bs r" and "steps tr = steps t0"
proof -
  obtain r c0 t0 where r: "runIfs (evalGuard h sync) (awaitOf h sync) bs c = (r, c0, t0)"
    by (cases "runIfs (evalGuard h sync) (awaitOf h sync) bs c")
  have "awaited (awaitOf h sync) (setEvaluationResults h bs r, c0, t0) = (res, c', tr)"
    using assms r by (simp add: evaluate_mode runInContext_def)
  from awaited_cases[OF this] have "res = setEvaluationResults h bs r" "steps tr = steps t0"
    by auto
  then show ?thesis using that r by blast
qed

text \<open>
  C3, as amended. In a batch run of either mode no guard but the last evaluated can have
  thrown: the run ends at the first guard that throws. When the value thrown is neither
  \<open>null\<close> nor \<open>undefined\<close> the call fails with one evaluation failure; when moreover the
  guard that threw stands in no \<open>#if\<close> or \<open>#elseif\<close> branch (it belongs to a top-level
  block or is reached through \<open>#else\<close> branches only) and the guards of the tree are
  distinct, the failure carries the line and column of that guard's directive and the value
  thrown. A program the host refuses (the synchronous mode meeting a suspension point)
  fails at line 0, column 0, with no guard evaluated; a result that is no array fails with
  the line, column and cause it carries itself.
\<close>

theorem evaluation_failure:
  "((if sync then evaluateIfsSync h ifBlocks c else evaluateIfs h ifBlocks c) = (res, c', tr) \<longrightarrow>
      list_all (\<lambda>s. thrownBy (evalGuard h sync) s = None) (butlast (steps tr))
      \<and> (steps tr \<noteq> [] \<and> thrownBy (evalGuard h sync) (last (steps tr)) = Some e
            \<and> \<not> nullish h e \<longrightarrow>
            (\<exists>l k x. res = Inl (CondCompEvalError l k x))
            \<and> (distinct (guards ifBlocks)
                  \<and> guardOf (last (steps tr)) \<in> set (directGuards ifBlocks) \<longrightarrow>
                  res = Inl (CondCompEvalError (s_line (fst (last (steps tr))))
                              (s_column (fst (last (steps tr)))) (Orig e))))
      \<and> (\<not> list_all (\<lambda>(sp, ex). accepts h sync ex) (guards ifBlocks)
            \<and> \<not> nullish h (syntaxError h) \<longrightarrow>
            res = Inl (CondCompEvalError 0 0 (Orig (syntaxError h))) \<and> tr = [] \<and> c' = c))
   \<and> (\<not> (\<exists>v. x = Orig v \<and> nullish h v) \<longrightarrow>
        setEvaluationResults h ifBlocks (Inl (Wrapped x l k)) = Inl (CondCompEvalError l k x))"
proof (intro conjI impI)
  assume "\<not> (\<exists>v. x = Orig v \<and> nullish h v)"
  then show "setEvaluationResults h ifBlocks (Inl (Wrapped x l k)) = Inl (CondCompEvalError l k x)"
    by (cases x) (simp_all add: setEvaluationResults_def makeEvaluationError_def)
next
  assume ev: "(if sync then evaluateIfsSync h ifBlocks c else evaluateIfs h ifBlocks c) = (res, c', tr)"
  show "list_all (\<lambda>s. thrownBy (evalGuard h sync) s = None) (butlast (steps tr))"
  proof (cases "list_all (\<lambda>(sp, ex). accepts h sync ex) (guards ifBlocks)")
    case False
    then have "tr = []" using ev by (simp add: evaluate_mode runInContext_def)
    then show ?thesis by simp
  next
    case True
    obtain r c0 t0 where
      r: "runIfs (evalGuard h sync) (awaitOf h sync) ifBlocks c = (r, c0, t0)"
      and st: "steps tr = steps t0"
      by (rule evaluate_run[OF ev True])
    have "calm (evalGuard h sync) (butlast (steps t0))"
    proof (cases r)
      case (Inl w)
      then show ?thesis using run_outcome(1)[OF r] by simp
    next
      case (Inr v)
      then show ?thesis using run_outcome(1)[OF r] calm_butlast by simp
    qed
    then show ?thesis by (simp add: calm_def st)
  qed
next
  assume ev: "(if sync then evaluateIfsSync h ifBlocks c else evaluateIfs h ifBlocks c) = (res, c', tr)"
    and th: "steps tr \<noteq> [] \<and> thrownBy (evalGuard h sync) (last (steps tr)) = Some e
            \<and> \<not> nullish h e"
  have acc: "list_all (\<lambda>(sp, ex). accepts h sync ex) (guards ifBlocks)"
  proof (rule ccontr)
    assume "\<not> list_all (\<lambda>(sp, ex). accepts h sync ex) (guards ifBlocks)"
    then have "tr = []" using ev by (simp add: evaluate_mode runInContext_def)
    then show False using th by simp
  qed
  obtain r c0 t0 where
    r: "runIfs (evalGuard h sync) (awaitOf h sync) ifBlocks c = (r, c0, t0)"
    and res: "res = setEvaluationResults h ifBlocks r" and st: "steps tr = steps t0"
    by (rule evaluate_run[OF ev acc])
  have nc: "\<not> calm (evalGuard h sync) (steps t0)"
    using th st last_in_set[of "steps t0"] by (auto simp: calm_def list_all_iff)
  obtain w where w: "r = Inl w"
  proof (cases r)
    case (Inl w)
    then show ?thesis using that by simp
  next
    case (Inr v)
    then show ?thesis using run_outcome(1)[OF r] nc by simp
  qed
  from run_wrapped(1)[of "evalGuard h sync" "awaitOf h sync" ifBlocks c w c0 t0] r w
  obtain y l' k' where
    y: "w = Wrapped y l' k'"
    and o: "thrownBy (evalGuard h sync) (last (steps t0)) = Some (origin w)"
    by auto
  have "origin y = e" using o th st y by simp
  then have "\<not> (\<exists>v. y = Orig v \<and> nullish h v)" using th by auto
  then have "makeEvaluationError h y l' k' = CondCompEvalError l' k' y"
    by (cases y) (simp_all add: makeEvaluationError_def)
  then show "\<exists>l k x. res = Inl (CondCompEvalError l k x)"
    using res w y by (simp add: setEvaluationResults_def)
next
  assume ev: "(if sync then evaluateIfsSync h ifBlocks c else evaluateIfs h ifBlocks c) = (res, c', tr)"
    and th: "steps tr \<noteq> [] \<and> thrownBy (evalGuard h sync) (last (steps tr)) = Some e
            \<and> \<not> nullish h e"
    and di: "distinct (guards ifBlocks) \<and> guardOf (last (steps tr)) \<in> set (directGuards ifBlocks)"
  have acc: "list_all (\<lambda>(sp, ex). accepts h sync ex) (guards ifBlocks)"
  proof (rule ccontr)
    assume "\<not> list_all (\<lambda>(sp, ex). accepts h sync ex) (guards ifBlocks)"
    then have "tr = []" using ev by (simp add: evaluate_mode runInContext_def)
    then show False using th by simp
  qed
  obtain r c0 t0 where
    r: "runIfs (evalGuard h sync) (awaitOf h sync) ifBlocks c = (r, c0, t0)"
    and res: "res = setEvaluationResults h ifBlocks r" and st: "steps tr = steps t0"
    by (rule evaluate_run[OF ev acc])
  have nc: "\<not> calm (evalGuard h sync) (steps t0)"
    using th st last_in_set[of "steps t0"] by (auto simp: calm_def list_all_iff)
  obtain w where w: "r = Inl w"
  proof (cases r)
    case (Inl w)
    then show ?thesis using that by simp
  next
    case (Inr v)
    then show ?thesis using run_outcome(1)[OF r] nc by simp
  qed
  have "pinned (evalGuard h sync) w (steps t0)"
    using direct_failure(1)[of "evalGuard h sync" "awaitOf h sync" ifBlocks c w c0 t0] r w di st
    by simp
  then have "w = Wrapped (Orig e) (s_line (fst (last (steps tr)))) (s_column (fst (last (steps tr))))"
    using th st by (auto simp: pinned_def)
  then show "res = Inl (CondCompEvalError (s_line (fst (last (steps tr))))
      (s_column (fst (last (steps tr)))) (Orig e))"
    using res w th by (simp add: setEvaluationResults_def makeEvaluationError_def)
next
  assume ev: "(if sync then evaluateIfsSync h ifBlocks c else evaluateIfs h ifBlocks c) = (res, c', tr)"
    and na: "\<not> list_all (\<lambda>(sp, ex). accepts h sync ex) (guards ifBlocks)
            \<and> \<not> nullish h (syntaxError h)"
  then show "res = Inl (CondCompEvalError 0 0 (Orig (syntaxError h)))" "tr = []" "c' = c"
    by (auto simp: evaluate_mode runInContext_def makeEvaluationError_def)
qed

lemma sample_fail:
  "evaluateIfs (sampleHost [])
      [sampleIf 0 1 ''fail()'' None, sampleIf 20 4 ''A = true'' None] False
   = (Inl (CondCompEvalError 1 0 (Orig 7)), False,
      [Evaluated (i_span (sampleIf 0 1 ''fail()'' None), js ''fail()'', False),
       Suspended False, Suspended False])"
  by (simp add: evaluateIfs_def runInContext_def sampleHost_def sampleIf_def sampleGuard_def
      js_def setEvaluationResults_def makeEvaluationError_def awaitOf_def awaited_def)

lemma sample_refused:
  "evaluateIfsSync (sampleHost []) [sampleIf 0 1 ''await X'' None] False
   = (Inl (CondCompEvalError 0 0 (Orig 0)), False, [])"
  by (simp add: evaluateIfsSync_def runInContext_def sampleHost_def sampleIf_def js_def
      makeEvaluationError_def)

theorem evaluation_failure_witness:
  "evaluateIfs (sampleHost [])
      [sampleIf 0 1 ''fail()'' None, sampleIf 20 4 ''A = true'' None] False
     = (Inl (CondCompEvalError 1 0 (Orig 7)), False,
        [Evaluated (i_span (sampleIf 0 1 ''fail()'' None), js ''fail()'', False),
         Suspended False, Suspended False])
   \<and> steps [Evaluated (i_span (sampleIf 0 1 ''fail()'' None), js ''fail()'', False),
         Suspended False, Suspended False]
       = [(i_span (sampleIf 0 1 ''fail()'' None), js ''fail()'', False)]
   \<and> thrownBy (evalGuard (sampleHost []) False)
        (i_span (sampleIf 0 1 ''fail()'' None), js ''fail()'', False) = Some 7
   \<and> \<not> nullish (sampleHost []) 7
   \<and> distinct (guards [sampleIf 0 1 ''fail()'' None, sampleIf 20 4 ''A = true'' None])
   \<and> (i_span (sampleIf 0 1 ''fail()'' None), js ''fail()'')
        \<in> set (directGuards [sampleIf 0 1 ''fail()'' None, sampleIf 20 4 ''A = true'' None])
   \<and> s_line (i_span (sampleIf 0 1 ''fail()'' None)) = 1
   \<and> s_column (i_span (sampleIf 0 1 ''fail()'' None)) = 0
   \<and> evaluateIfsSync (sampleHost []) [sampleIf 0 1 ''await X'' None] False
     = (Inl (CondCompEvalError 0 0 (Orig 0)), False, [])
   \<and> \<not> list_all (\<lambda>(sp, ex). accepts (sampleHost []) True ex)
         (guards [sampleIf 0 1 ''await X'' None])
   \<and> \<not> nullish (sampleHost []) (syntaxError (sampleHost []))
   \<and> setEvaluationResults (sampleHost []) [] (Inl (Wrapped (Orig 7) 5 3))
       = Inl (CondCompEvalError 5 3 (Orig 7))"
proof -
  have s: "steps [Evaluated (i_span (sampleIf 0 1 ''fail()'' None), js ''fail()'', False),
         Suspended False, Suspended False]
       = [(i_span (sampleIf 0 1 ''fail()'' None), js ''fail()'', False)]"
    by simp
  have t: "thrownBy (evalGuard (sampleHost []) False)
        (i_span (sampleIf 0 1 ''fail()'' None), js ''fail()'', False) = Some 7"
    by (simp add: thrownBy_def sampleHost_def sampleGuard_def js_def)
  have d: "distinct (guards [sampleIf 0 1 ''fail()'' None, sampleIf 20 4 ''A = true'' None])"
    by (simp add: sampleIf_def)
  have m: "(i_span (sampleIf 0 1 ''fail()'' None), js ''fail()'')
        \<in> set (directGuards [sampleIf 0 1 ''fail()'' None, sampleIf 20 4 ''A = true'' None])"
    by (simp add: sampleIf_def)
  have n: "\<not> list_all (\<lambda>(sp, ex). accepts (sampleHost []) True ex)
         (guards [sampleIf 0 1 ''await X'' None])"
    by (simp add: sampleHost_def sampleIf_def)
  have u: "\<not> nullish (sampleHost []) 7" "\<not> nullish (sampleHost []) (syntaxError (sampleHost []))"
    "syntaxError (sampleHost []) = 0"
    by (simp_all add: sampleHost_def)
  have l: "s_line (i_span (sampleIf 0 1 ''fail()'' None)) = 1"
    "s_column (i_span (sampleIf 0 1 ''fail()'' None)) = 0"
    by (simp_all add: sampleIf_def)
  have w: "\<not> (\<exists>v. Orig (7::nat) = Orig v \<and> nullish (sampleHost []) v)"
    by (simp add: sampleHost_def)
  have a: "setEvaluationResults (sampleHost []) [] (Inl (Wrapped (Orig 7) 5 3))
       = Inl (CondCompEvalError 5 3 (Orig 7))"
    using evaluation_failure [of True "sampleHost []" "[]" False "Inr []" False "[]" 7
        "Orig 7" 5 3] w
    by blast
  have "Inl (CondCompEvalError 1 0 (Orig 7))
      = (Inl (CondCompEvalError (s_line (i_span (sampleIf 0 1 ''fail()'' None)))
           (s_column (i_span (sampleIf 0 1 ''fail()'' None))) (Orig 7)) :: nat Failure + IfBlock list)"
    using evaluation_failure [of False "sampleHost []"
        "[sampleIf 0 1 ''fail()'' None, sampleIf 20 4 ''A = true'' None]" False
        "Inl (CondCompEvalError 1 0 (Orig 7))" False
        "[Evaluated (i_span (sampleIf 0 1 ''fail()'' None), js ''fail()'', False),
          Suspended False, Suspended False]" 7 "Orig 7" 5 3]
      sample_fail s t d m u(1)
    by simp
  then show ?thesis
    using a sample_fail sample_refused s t d m n u l by simp
qed

text \<open>
  C3 as stated fails. A guard on line 2 inside the \<open>#if\<close> branch of a block on line 1
  throws 7: the failure carries line 1 and, as its cause, the object of line 2. A result
  that is no array gives a failure with its own line and column, not 0 and 0. And a guard
  that throws \<open>null\<close> gives no evaluation failure but a TypeError.
\<close>

theorem evaluation_failure_counterexample:
  "evaluateIfs (sampleHost [])
      [sampleIf 0 1 ''true'' (Some [sampleIf 20 2 ''fail()'' None])] False
     = (Inl (CondCompEvalError 1 0 (Wrapped (Orig 7) 2 0)), False,
        [Evaluated (i_span (sampleIf 0 1 ''true'' (Some [sampleIf 20 2 ''fail()'' None])),
           js ''true'', False),
         Evaluated (i_span (sampleIf 20 2 ''fail()'' None), js ''fail()'', False),
         Suspended False, Suspended False, Suspended False])
   \<and> setEvaluationResults (sampleHost []) [] (Inl (Wrapped (Orig 7) 5 3))
       = Inl (CondCompEvalError 5 3 (Orig 7))
   \<and> evaluateIfsSync (sampleHost []) [sampleIf 0 1 ''fail(null)'' None] False
       = (Inl TypeError, False,
          [Evaluated (i_span (sampleIf 0 1 ''fail(null)'' None), js ''fail(null)'', False)])"
  by (simp add: evaluateIfs_def evaluateIfsSync_def runInContext_def sampleHost_def sampleIf_def
      sampleGuard_def js_def setEvaluationResults_def makeEvaluationError_def awaitOf_def
      awaited_def)

section \<open>Branches that are not taken\<close>









section \<open>The two modes\<close>

lemma await_none [simp]: "awaited None x = x"
  by (simp add: awaited_def)

lemma await_some [simp]: "awaited (Some f) (r, c, tr) = (r, f c, tr @ [Suspended c])"
  by (simp add: awaited_def)

lemma run_agree:
  fixes g1 :: "('c, 'e) guard" and g2 :: "('c, 'e) guard"
  shows "runIfs g1 None bs c = (r1, c', tr) \<Longrightarrow> f c = c
           \<Longrightarrow> list_all (\<lambda>(sp, ex, cb). g2 ex cb = g1 ex cb \<and> f (snd (g1 ex cb)) = snd (g1 ex cb))
                 (steps tr)
           \<Longrightarrow> f c' = c' \<and> (\<exists>tr'. runIfs g2 (Some f) bs c = (r1, c', tr') \<and> steps tr' = steps tr)"
    and "runIf g1 None b c = (r2, c', tr) \<Longrightarrow> f c = c
           \<Longrightarrow> list_all (\<lambda>(sp, ex, cb). g2 ex cb = g1 ex cb \<and> f (snd (g1 ex cb)) = snd (g1 ex cb))
                 (steps tr)
           \<Longrightarrow> f c' = c' \<and> (\<exists>tr'. runIf g2 (Some f) b c = (r2, c', tr') \<and> steps tr' = steps tr)"
    and "runChildren g1 None ch c = (r3, c', tr) \<Longrightarrow> f c = c
           \<Longrightarrow> list_all (\<lambda>(sp, ex, cb). g2 ex cb = g1 ex cb \<and> f (snd (g1 ex cb)) = snd (g1 ex cb))
                 (steps tr)
           \<Longrightarrow> f c' = c'
               \<and> (\<exists>tr'. runChildren g2 (Some f) ch c = (r3, c', tr') \<and> steps tr' = steps tr)"
    and "runElseIfs g1 None es k c = (r4, c', tr) \<Longrightarrow> f c = c
           \<Longrightarrow> list_all (\<lambda>(sp, ex, cb). g2 ex cb = g1 ex cb \<and> f (snd (g1 ex cb)) = snd (g1 ex cb))
                 (steps tr)
           \<Longrightarrow> f c' = c'
               \<and> (\<exists>tr'. runElseIfs g2 (Some f) es k c = (r4, c', tr') \<and> steps tr' = steps tr)"
    and "runElseIfsOpt g1 None eis c = (r5, c', tr) \<Longrightarrow> f c = c
           \<Longrightarrow> list_all (\<lambda>(sp, ex, cb). g2 ex cb = g1 ex cb \<and> f (snd (g1 ex cb)) = snd (g1 ex cb))
                 (steps tr)
           \<Longrightarrow> f c' = c'
               \<and> (\<exists>tr'. runElseIfsOpt g2 (Some f) eis c = (r5, c', tr') \<and> steps tr' = steps tr)"
    and "runElse g1 None el c = (r6, c', tr) \<Longrightarrow> f c = c
           \<Longrightarrow> list_all (\<lambda>(sp, ex, cb). g2 ex cb = g1 ex cb \<and> f (snd (g1 ex cb)) = snd (g1 ex cb))
                 (steps tr)
           \<Longrightarrow> f c' = c' \<and> (\<exists>tr'. runElse g2 (Some f) el c = (r6, c', tr') \<and> steps tr' = steps tr)"
proof (induction bs and b and ch and es and eis and el
    arbitrary: c r1 c' tr and c r2 c' tr and c r3 c' tr and c k r4 c' tr and c r5 c' tr
      and c r6 c' tr
    rule: block_induct)
  case (2 b bs)
  obtain r c1 t where rb: "runIf g1 None b c = (r, c1, t)" by (cases "runIf g1 None b c")
  obtain r' c2 t' where rs: "runIfs g1 None bs c1 = (r', c2, t')" by (cases "runIfs g1 None bs c1")
  show ?case
  proof (cases r)
    case (Inl x)
    then have eq: "r1 = Inl x" "c' = c1" "tr = t" using rb "2.prems"(1) by auto
    from "2.IH"(1)[OF rb "2.prems"(2)] "2.prems"(3) eq obtain t1 where
      "f c1 = c1" "runIf g2 (Some f) b c = (r, c1, t1)" "steps t1 = steps t" by auto
    then show ?thesis using Inl eq by auto
  next
    case (Inr v)
    then have eq: "r1 = (case r' of Inl x \<Rightarrow> Inl x | Inr rs \<Rightarrow> Inr (v # rs))" "c' = c2" "tr = t @ t'"
      using rb rs "2.prems"(1) by (auto split: sum.splits)
    from "2.IH"(1)[OF rb "2.prems"(2)] "2.prems"(3) eq obtain t1 where
      a: "f c1 = c1" "runIf g2 (Some f) b c = (r, c1, t1)" "steps t1 = steps t" by auto
    from "2.IH"(2)[OF rs a(1)] "2.prems"(3) eq obtain t2 where
      b: "f c2 = c2" "runIfs g2 (Some f) bs c1 = (r', c2, t2)" "steps t2 = steps t'" by auto
    show ?thesis using a b Inr eq by (cases r') auto
  qed
next
  case (4 cs)
  obtain r c1 t where rb: "runIfs g1 None cs c = (r, c1, t)" by (cases "runIfs g1 None cs c")
  then have eq: "r3 = (case r of Inl x \<Rightarrow> Inl x | Inr rs \<Rightarrow> Inr (Some rs))" "c' = c1" "tr = t"
    using "4.prems"(1) by (auto split: sum.splits)
  from "4.IH"[OF rb "4.prems"(2)] "4.prems"(3) eq obtain t1 where
    "f c1 = c1" "runIfs g2 (Some f) cs c = (r, c1, t1)" "steps t1 = steps t" by auto
  then show ?case using eq by (cases r) auto
next
  case (5 sp ex tk ch eis el en d)
  have body: "runBody g1 None (IfBlock sp ex tk ch eis el en d) c = (r2, c', tr)"
    using "5.prems"(1) by simp
  obtain o1 c1 where g: "g1 ex c = (o1, c1)" by (cases "g1 ex c")
  have hd: "steps tr \<noteq> [] \<and> hd (steps tr) = (sp, ex, c)"
    using body g by (cases o1) (auto split: prod.splits sum.splits bool.splits option.splits)
  then have ok: "g2 ex c = g1 ex c" "f c1 = c1"
    using "5.prems"(3) g by (cases "steps tr"; auto)+
  have "f c' = c'
      \<and> (\<exists>t1. runBody g2 (Some f) (IfBlock sp ex tk ch eis el en d) c = (r2, c', t1)
            \<and> steps t1 = steps tr)"
  proof (cases o1)
    case (Inl e)
    then show ?thesis using g ok body by auto
  next
    case (Inr v)
    show ?thesis
    proof (cases v)
      case True
      obtain r c2 t where rc: "runChildren g1 None ch c1 = (r, c2, t)"
        by (cases "runChildren g1 None ch c1")
      have eq: "r2 = (case r of Inl x \<Rightarrow> Inl (Wrapped x (s_line sp) (s_column sp))
                | Inr rs \<Rightarrow> Inr (Entry 0 rs))" "c' = c2" "tr = Evaluated (sp, ex, c) # t"
        using g Inr True rc body by (auto split: sum.splits)
      from "5.IH"(1)[OF rc ok(2)] "5.prems"(3) eq obtain t1 where
        "f c2 = c2" "runChildren g2 (Some f) ch c1 = (r, c2, t1)" "steps t1 = steps t" by auto
      then show ?thesis using g ok Inr True eq by (cases r) auto
    next
      case False
      obtain r c2 t where re: "runElseIfsOpt g1 None eis c1 = (r, c2, t)"
        by (cases "runElseIfsOpt g1 None eis c1")
      obtain r' c3 t' where rl: "runElse g1 None el c2 = (r', c3, t')"
        by (cases "runElse g1 None el c2")
      show ?thesis
      proof (cases "r = Inr None")
        case nn: False
        then have eq: "r2 = (case r of Inl x \<Rightarrow> Inl x | Inr m \<Rightarrow> Inr (the m))" "c' = c2"
          "tr = Evaluated (sp, ex, c) # t"
          using g Inr False re body by (auto split: sum.splits option.splits)
        from "5.IH"(2)[OF re ok(2)] "5.prems"(3) eq obtain t1 where
          "f c2 = c2" "runElseIfsOpt g2 (Some f) eis c1 = (r, c2, t1)" "steps t1 = steps t"
          by auto
        then show ?thesis using g ok Inr False eq nn
          by (cases r) (auto split: option.splits)
      next
        case True
        then have eq: "r2 = (case r' of Inl x \<Rightarrow> Inl x | Inr rs \<Rightarrow> Inr (Entry (- 1) rs))"
          "c' = c3" "tr = Evaluated (sp, ex, c) # t @ t'"
          using g Inr False re rl body by (auto split: sum.splits)
        from "5.IH"(2)[OF re ok(2)] "5.prems"(3) eq obtain t1 where
          a: "f c2 = c2" "runElseIfsOpt g2 (Some f) eis c1 = (r, c2, t1)" "steps t1 = steps t"
          by auto
        from "5.IH"(3)[OF rl a(1)] "5.prems"(3) eq obtain t2 where
          b: "f c3 = c3" "runElse g2 (Some f) el c2 = (r', c3, t2)" "steps t2 = steps t'"
          by auto
        show ?thesis using g ok Inr False True eq a b by (cases r') auto
      qed
    qed
  qed
  then show ?case by auto
next
  case (7 sp ex ch es)
  obtain o1 c1 where g: "g1 ex c = (o1, c1)" by (cases "g1 ex c")
  have hd: "steps tr \<noteq> [] \<and> hd (steps tr) = (sp, ex, c)"
    using "7.prems"(1) g
    by (cases o1) (auto split: prod.splits sum.splits bool.splits option.splits)
  then have ok: "g2 ex c = g1 ex c" "f c1 = c1"
    using "7.prems"(3) g by (cases "steps tr"; auto)+
  show ?case
  proof (cases o1)
    case (Inl e)
    then show ?thesis using g ok "7.prems"(1) by auto
  next
    case (Inr v)
    show ?thesis
    proof (cases v)
      case True
      obtain r c2 t where rc: "runChildren g1 None ch c1 = (r, c2, t)"
        by (cases "runChildren g1 None ch c1")
      have eq: "r4 = (case r of Inl x \<Rightarrow> Inl (Wrapped x (s_line sp) (s_column sp))
                | Inr rs \<Rightarrow> Inr (Some (Entry k rs)))" "c' = c2" "tr = Evaluated (sp, ex, c) # t"
        using g Inr True rc "7.prems"(1) by (auto split: sum.splits)
      from "7.IH"(1)[OF rc ok(2)] "7.prems"(3) eq obtain t1 where
        "f c2 = c2" "runChildren g2 (Some f) ch c1 = (r, c2, t1)" "steps t1 = steps t" by auto
      then show ?thesis using g ok Inr True eq by (cases r) auto
    next
      case False
      obtain r c2 t where re: "runElseIfs g1 None es (k + 1) c1 = (r, c2, t)"
        by (cases "runElseIfs g1 None es (k + 1) c1")
      have eq: "r4 = r" "c' = c2" "tr = Evaluated (sp, ex, c) # t"
        using g Inr False re "7.prems"(1) by auto
      from "7.IH"(2)[OF re ok(2)] "7.prems"(3) eq obtain t1 where
        "f c2 = c2" "runElseIfs g2 (Some f) es (k + 1) c1 = (r, c2, t1)" "steps t1 = steps t"
        by auto
      then show ?thesis using g ok Inr False eq by auto
    qed
  qed
qed auto

lemma accepts_alike:
  "list_all (\<lambda>(sp, ex). accepts h True ex = accepts h False ex) gs \<Longrightarrow>
     list_all (\<lambda>(sp, ex). accepts h True ex) gs = list_all (\<lambda>(sp, ex). accepts h False ex) gs"
  by (induction gs) auto

lemma finish_trace: "finish code (r, c, tr) = finish code (r, c, tr')"
  by (cases r) (simp_all add: finish_def)

lemma quiet_agree:
  assumes acc: "list_all (\<lambda>(sp, ex). accepts h True ex = accepts h False ex) (guards bs)"
    and q: "quiet h c (steps (snd (snd (evaluateIfsSync h bs c))))"
  shows "finish code (evaluateIfsSync h bs c)
         = finish code (awaited (Some (suspend h)) (evaluateIfs h bs c))"
proof (cases "list_all (\<lambda>(sp, ex). accepts h True ex) (guards bs)")
  case False
  then have n: "\<not> list_all (\<lambda>(sp, ex). accepts h False ex) (guards bs)"
    using accepts_alike[OF acc] by simp
  have "suspend h c = c" using q by (simp add: quiet_def)
  then show ?thesis using False n
    by (simp add: evaluateIfsSync_def evaluateIfs_def runInContext_def finish_trace[of _ _ _ "[]"])
next
  case True
  then have t: "list_all (\<lambda>(sp, ex). accepts h False ex) (guards bs)"
    using accepts_alike[OF acc] by simp
  obtain r c' tr where run: "runIfs (evalGuard h True) None bs c = (r, c', tr)"
    by (cases "runIfs (evalGuard h True) None bs c")
  have sy: "evaluateIfsSync h bs c = (setEvaluationResults h bs r, c', tr)"
    using True run by (simp add: evaluateIfsSync_def runInContext_def awaitOf_def)
  have q': "suspend h c = c"
    "list_all (\<lambda>(sp, ex, cb). evalGuard h False ex cb = evalGuard h True ex cb
        \<and> suspend h (snd (evalGuard h True ex cb)) = snd (evalGuard h True ex cb)) (steps tr)"
    using q sy by (simp_all add: quiet_def)
  from run_agree(1)[where f = "suspend h" and ?g2.0 = "evalGuard h False", OF run q'(1) q'(2)]
  obtain tr' where
    f: "suspend h c' = c'" and
    ar: "runIfs (evalGuard h False) (Some (suspend h)) bs c = (r, c', tr')" by blast
  have "evaluateIfs h bs c = (setEvaluationResults h bs r, c', tr' @ [Suspended c'])"
    using t ar f by (simp add: evaluateIfs_def runInContext_def awaitOf_def)
  then show ?thesis using sy f by simp (rule finish_trace)
qed

lemma queue_matches:
  "matchDirective False (js '' #if A'') = Some (T_if, js ''A'')"
  "matchDirective False (js '' #if later()'') = Some (T_if, js ''later()'')"
  "matchDirective False (js '' #if await X'') = Some (T_if, js ''await X'')"
  "matchDirective False (js '' #endif'') = Some (T_endif, [])"
  by (simp_all add: matchDirective_def reAt_def js_def isSpace_def reSpace_def tagWord_def
      reTail_def atEnd_def isLineTerminator_def)

lemma queue_exprs:
  "parseExpression exprAcorn (js ''A'') = Inr (js ''A'')"
  "parseExpression exprAcorn (js ''later()'') = Inr (js ''later()'')"
  "parseExpression exprAcorn (js ''await X'') = Inr (js ''await X'')"
  by (simp_all add: parseExpression_def exprAcorn_def slice_def relIndex_def js_def)

lemma single_scan:
  "scan exprAcorn [lineComment '' #if A'' 0 8 1, lineComment '' #endif'' 11 20 3] =
     \<lparr>heap = [IfObj \<lparr>s_start = 0, s_end = 8, s_line = 1, s_column = 0\<rparr> (js ''A'') None None None
                \<lparr>s_start = 11, s_end = 20, s_line = 3, s_column = 0\<rparr> False],
      toplevel = [0], ifStack = [], scopeStack = [], errors = []\<rparr>"
proof -
  have n: "js ''A'' \<noteq> []" by (simp add: js_def)
  show ?thesis
    by (simp add: scan_def onComment_def lineComment_def queue_matches
        setExpression_def queue_exprs n alloc_def pushIf_def initial_def update_def
        commentSpan_def setEndif_def noEndif_def Let_def)
qed

text \<open>
  C10, as amended. Let the host accept every guard of the parsed tree, reached or not, alike
  in both kinds of function body; let nothing be pending at the start, and let every guard
  the synchronous run evaluates do the same in an \<open>async\<close> body and leave nothing behind
  that a wait would run. Then the two entry points return the same text or the same
  failure and leave the same context.
\<close>

theorem sync_async_agree:
  "(\<forall>ifBlocks. parseCode h code = Inr ifBlocks
        \<longrightarrow> list_all (\<lambda>(sp, ex). accepts h True ex = accepts h False ex) (guards ifBlocks)
            \<and> quiet h c (steps (snd (snd (evaluateIfsSync h ifBlocks c)))))
   \<longrightarrow> condCompSync h code c = condComp h code c"
proof
  assume a: "\<forall>ifBlocks. parseCode h code = Inr ifBlocks
        \<longrightarrow> list_all (\<lambda>(sp, ex). accepts h True ex = accepts h False ex) (guards ifBlocks)
            \<and> quiet h c (steps (snd (snd (evaluateIfsSync h ifBlocks c))))"
  show "condCompSync h code c = condComp h code c"
  proof (cases "parseCode h code")
    case (Inl f)
    then show ?thesis by (simp add: condCompSync_def condComp_def)
  next
    case (Inr bs)
    then have "list_all (\<lambda>(sp, ex). accepts h True ex = accepts h False ex) (guards bs)"
      and "quiet h c (steps (snd (snd (evaluateIfsSync h bs c))))" using a by simp_all
    then have "finish code (evaluateIfsSync h bs c)
         = finish code (awaited (Some (suspend h)) (evaluateIfs h bs c))"
      by (rule quiet_agree)
    then show ?thesis using Inr by (simp add: condCompSync_def condComp_def)
  qed
qed

theorem sync_async_agree_witness:
  "parseCode (queueHost [lineComment '' #if A'' 0 8 1, lineComment '' #endif'' 11 20 3])
        (js ''// #if A'' @ [0x0A] @ js ''1'' @ [0x0A] @ js ''// #endif'')
     = Inr [IfBlock \<lparr>s_start = 0, s_end = 8, s_line = 1, s_column = 0\<rparr> (js ''A'') None None None None
                \<lparr>s_start = 11, s_end = 20, s_line = 3, s_column = 0\<rparr> False]
   \<and> quiet (queueHost [lineComment '' #if A'' 0 8 1, lineComment '' #endif'' 11 20 3]) (True, False)
       (steps (snd (snd (evaluateIfsSync
          (queueHost [lineComment '' #if A'' 0 8 1, lineComment '' #endif'' 11 20 3])
          [IfBlock \<lparr>s_start = 0, s_end = 8, s_line = 1, s_column = 0\<rparr> (js ''A'') None None None None
                \<lparr>s_start = 11, s_end = 20, s_line = 3, s_column = 0\<rparr> False] (True, False)))))
   \<and> suspend (queueHost [lineComment '' #if A'' 0 8 1, lineComment '' #endif'' 11 20 3])
       (False, True) = (True, False)
   \<and> condCompSync (queueHost [lineComment '' #if A'' 0 8 1, lineComment '' #endif'' 11 20 3])
        (js ''// #if A'' @ [0x0A] @ js ''1'' @ [0x0A] @ js ''// #endif'') (True, False)
     = condComp (queueHost [lineComment '' #if A'' 0 8 1, lineComment '' #endif'' 11 20 3])
        (js ''// #if A'' @ [0x0A] @ js ''1'' @ [0x0A] @ js ''// #endif'') (True, False)"
proof -
  have p: "parseCode (queueHost [lineComment '' #if A'' 0 8 1, lineComment '' #endif'' 11 20 3])
        (js ''// #if A'' @ [0x0A] @ js ''1'' @ [0x0A] @ js ''// #endif'')
     = Inr [IfBlock \<lparr>s_start = 0, s_end = 8, s_line = 1, s_column = 0\<rparr> (js ''A'') None None None None
                \<lparr>s_start = 11, s_end = 20, s_line = 3, s_column = 0\<rparr> False]"
    by (simp add: parseCode_def queueHost_def parse_def single_scan finalErrors_def deref_def)
  have q: "quiet (queueHost [lineComment '' #if A'' 0 8 1, lineComment '' #endif'' 11 20 3]) (True, False)
       (steps (snd (snd (evaluateIfsSync
          (queueHost [lineComment '' #if A'' 0 8 1, lineComment '' #endif'' 11 20 3])
          [IfBlock \<lparr>s_start = 0, s_end = 8, s_line = 1, s_column = 0\<rparr> (js ''A'') None None None None
                \<lparr>s_start = 11, s_end = 20, s_line = 3, s_column = 0\<rparr> False] (True, False)))))"
    by (simp add: quiet_def evaluateIfsSync_def runInContext_def queueHost_def queueGuard_def
        awaitOf_def)
  have s: "suspend (queueHost [lineComment '' #if A'' 0 8 1, lineComment '' #endif'' 11 20 3])
       (False, True) = (True, False)"
    by (simp add: queueHost_def)
  have "condCompSync (queueHost [lineComment '' #if A'' 0 8 1, lineComment '' #endif'' 11 20 3])
        (js ''// #if A'' @ [0x0A] @ js ''1'' @ [0x0A] @ js ''// #endif'') (True, False)
     = condComp (queueHost [lineComment '' #if A'' 0 8 1, lineComment '' #endif'' 11 20 3])
        (js ''// #if A'' @ [0x0A] @ js ''1'' @ [0x0A] @ js ''// #endif'') (True, False)"
    using sync_async_agree [of "queueHost [lineComment '' #if A'' 0 8 1, lineComment '' #endif'' 11 20 3]"
        "js ''// #if A'' @ [0x0A] @ js ''1'' @ [0x0A] @ js ''// #endif''" "(True, False)"] p q
    by (simp add: queueHost_def)
  with p q s show ?thesis by (simp only: simp_thms)
qed

lemma sample_scan:
  "scan exprAcorn sampleComments =
     \<lparr>heap = [IfObj \<lparr>s_start = 0, s_end = 8, s_line = 1, s_column = 0\<rparr> (js ''A'') (Some [1]) None None
                \<lparr>s_start = 34, s_end = 43, s_line = 4, s_column = 0\<rparr> False,
              IfObj \<lparr>s_start = 9, s_end = 23, s_line = 2, s_column = 0\<rparr> (js ''await X'') None None None
                \<lparr>s_start = 24, s_end = 33, s_line = 3, s_column = 0\<rparr> False],
      toplevel = [0], ifStack = [], scopeStack = [], errors = []\<rparr>"
proof -
  have n: "js ''A'' \<noteq> []" "js ''await X'' \<noteq> []" by (simp_all add: js_def)
  show ?thesis
    by (simp add: scan_def sampleComments_def onComment_def lineComment_def queue_matches
        setExpression_def queue_exprs n alloc_def pushIf_def initial_def update_def
        commentSpan_def pushChild_def setEndif_def noEndif_def Let_def)
qed

lemma sample_parse: "parseCode (sampleHost sampleComments) sampleCode = Inr sampleTree"
  by (simp add: parseCode_def sampleHost_def parse_def sample_scan finalErrors_def deref_def
      sampleTree_def)

lemma sample_async:
  "\<exists>tr. evaluateIfs (sampleHost sampleComments) sampleTree False
   = (Inr [IfBlock \<lparr>s_start = 0, s_end = 8, s_line = 1, s_column = 0\<rparr> (js ''A'') (Some (- 1))
        (Some [IfBlock \<lparr>s_start = 9, s_end = 23, s_line = 2, s_column = 0\<rparr> (js ''await X'') None
                 None None None \<lparr>s_start = 24, s_end = 33, s_line = 3, s_column = 0\<rparr> False])
        None None \<lparr>s_start = 34, s_end = 43, s_line = 4, s_column = 0\<rparr> False],
      False, tr)
    \<and> steps tr = [(\<lparr>s_start = 0, s_end = 8, s_line = 1, s_column = 0\<rparr>, js ''A'', False)]"
  by (simp add: evaluateIfs_def runInContext_def sampleHost_def sampleTree_def sampleGuard_def
      js_def setEvaluationResults_def awaitOf_def)

lemma sample_sync:
  "evaluateIfsSync (sampleHost sampleComments) sampleTree False
   = (Inl (CondCompEvalError 0 0 (Orig 0)), False, [])"
  by (simp add: evaluateIfsSync_def runInContext_def sampleHost_def sampleTree_def js_def
      makeEvaluationError_def)

lemma slurp_left_0: "slurpAllWhitespaceLeft str 0 = 0"
  by (subst slurpAllWhitespaceLeft.simps) simp

lemma sample_cuts:
  "makeCuts
     [IfBlock \<lparr>s_start = 0, s_end = 8, s_line = 1, s_column = 0\<rparr> (js ''A'') (Some (- 1))
        (Some [IfBlock \<lparr>s_start = 9, s_end = 23, s_line = 2, s_column = 0\<rparr> (js ''await X'') None
                 None None None \<lparr>s_start = 24, s_end = 33, s_line = 3, s_column = 0\<rparr> False])
        None None \<lparr>s_start = 34, s_end = 43, s_line = 4, s_column = 0\<rparr> False] newCuts
   = Some [\<lparr>sl_start = 0, sl_end = 43\<rparr>]"
  by (simp add: newCuts_def add_def)

lemma sample_length: "length sampleCode = 43"
  by (simp add: sampleCode_def js_def)

lemma sample_emit: "emit sampleCode [\<lparr>sl_start = 0, sl_end = 43\<rparr>] [] 0 = []"
proof -
  have d1: "isEmptyLine sampleCode 0" by (simp add: isEmptyLine_def)
  have d2: "slice sampleCode 0 0 = []" by (simp add: slice_def relIndex_def)
  have d3: "sliceFrom sampleCode 43 = []" by (simp add: sliceFrom_def relIndex_def sample_length)
  have d4: "codePointAt sampleCode 43 = None"
    by (simp add: codePointAt_def charCodeAt_def sample_length)
  have d5: "slurpSingleNewLineRight sampleCode 43 = 43"
    by (simp add: slurpSingleNewLineRight_def d4)
  show ?thesis by (simp add: Let_def slurp_left_0 d1 d2 d3 d5)
qed

lemma sample_apply:
  "apply sampleCode
     [IfBlock \<lparr>s_start = 0, s_end = 8, s_line = 1, s_column = 0\<rparr> (js ''A'') (Some (- 1))
        (Some [IfBlock \<lparr>s_start = 9, s_end = 23, s_line = 2, s_column = 0\<rparr> (js ''await X'') None
                 None None None \<lparr>s_start = 24, s_end = 33, s_line = 3, s_column = 0\<rparr> False])
        None None \<lparr>s_start = 34, s_end = 43, s_line = 4, s_column = 0\<rparr> False]
   = Some []"
  by (simp only: apply_def sample_cuts) (simp add: isEmpty_def sample_emit del: emit.simps)

lemma sample_modes:
  "condComp (sampleHost sampleComments) sampleCode False = (Inr [], False)"
  "condCompSync (sampleHost sampleComments) sampleCode False
       = (Inl (CondCompEvalError 0 0 (Orig 0)), False)"
proof -
  from sample_async obtain tr where
    "evaluateIfs (sampleHost sampleComments) sampleTree False
   = (Inr [IfBlock \<lparr>s_start = 0, s_end = 8, s_line = 1, s_column = 0\<rparr> (js ''A'') (Some (- 1))
        (Some [IfBlock \<lparr>s_start = 9, s_end = 23, s_line = 2, s_column = 0\<rparr> (js ''await X'') None
                 None None None \<lparr>s_start = 24, s_end = 33, s_line = 3, s_column = 0\<rparr> False])
        None None \<lparr>s_start = 34, s_end = 43, s_line = 4, s_column = 0\<rparr> False],
      False, tr)" by blast
  then show "condComp (sampleHost sampleComments) sampleCode False = (Inr [], False)"
    by (simp add: condComp_def sample_parse finish_def sample_apply) (simp add: sampleHost_def)
  show "condCompSync (sampleHost sampleComments) sampleCode False
       = (Inl (CondCompEvalError 0 0 (Orig 0)), False)"
    by (simp add: condCompSync_def sample_parse sample_sync finish_def)
qed

lemma queue_scan:
  "scan exprAcorn queueComments =
     \<lparr>heap = [IfObj \<lparr>s_start = 0, s_end = 14, s_line = 1, s_column = 0\<rparr> (js ''later()'') None None
                None \<lparr>s_start = 15, s_end = 24, s_line = 2, s_column = 0\<rparr> False,
              IfObj \<lparr>s_start = 25, s_end = 33, s_line = 3, s_column = 0\<rparr> (js ''A'') None None None
                \<lparr>s_start = 36, s_end = 45, s_line = 5, s_column = 0\<rparr> False],
      toplevel = [0, 1], ifStack = [], scopeStack = [], errors = []\<rparr>"
proof -
  have n: "js ''A'' \<noteq> []" "js ''later()'' \<noteq> []" by (simp_all add: js_def)
  show ?thesis
    by (simp add: scan_def queueComments_def onComment_def lineComment_def queue_matches
        setExpression_def queue_exprs n alloc_def pushIf_def initial_def update_def
        commentSpan_def pushChild_def setEndif_def noEndif_def Let_def)
qed

lemma queue_parse: "parseCode (queueHost queueComments) queueCode = Inr (queueTree None None)"
  by (simp add: parseCode_def queueHost_def parse_def queue_scan finalErrors_def deref_def
      queueTree_def)

lemma queue_distinct: "js ''later()'' \<noteq> js ''A''"
  by (simp add: js_def)

lemma queue_sync:
  "evaluateIfsSync (queueHost queueComments) (queueTree None None) (False, False)
   = (Inr (queueTree (Some (- 1)) (Some (- 1))), (False, True),
      [Evaluated (\<lparr>s_start = 0, s_end = 14, s_line = 1, s_column = 0\<rparr>, js ''later()'',
                  (False, False)),
       Evaluated (\<lparr>s_start = 25, s_end = 33, s_line = 3, s_column = 0\<rparr>, js ''A'',
                  (False, True))])"
  by (simp add: evaluateIfsSync_def runInContext_def queueHost_def queueTree_def queueGuard_def
      queue_distinct setEvaluationResults_def awaitOf_def)

lemma queue_async:
  "evaluateIfs (queueHost queueComments) (queueTree None None) (False, False)
   = (Inr (queueTree (Some (- 1)) (Some 0)), (True, False),
      [Evaluated (\<lparr>s_start = 0, s_end = 14, s_line = 1, s_column = 0\<rparr>, js ''later()'',
                  (False, False)),
       Suspended (False, True),
       Evaluated (\<lparr>s_start = 25, s_end = 33, s_line = 3, s_column = 0\<rparr>, js ''A'',
                  (True, False)),
       Suspended (True, False),
       Suspended (True, False)])"
  by (simp add: evaluateIfs_def runInContext_def queueHost_def queueTree_def queueGuard_def
      queue_distinct setEvaluationResults_def awaitOf_def)

lemma queue_cuts:
  "makeCuts (queueTree (Some (- 1)) (Some (- 1))) newCuts
   = Some [\<lparr>sl_start = 0, sl_end = 24\<rparr>, \<lparr>sl_start = 25, sl_end = 45\<rparr>]"
  "makeCuts (queueTree (Some (- 1)) (Some 0)) newCuts
   = Some [\<lparr>sl_start = 0, sl_end = 24\<rparr>, \<lparr>sl_start = 25, sl_end = 33\<rparr>,
           \<lparr>sl_start = 36, sl_end = 45\<rparr>]"
  by (simp_all add: queueTree_def newCuts_def add_def)

lemma queue_length: "length queueCode = 45"
  by (simp add: queueCode_def js_def)

lemma queue_chars:
  "charCodeAt queueCode 24 = Some 10"
  "charCodeAt queueCode 33 = Some 10"
  "charCodeAt queueCode 35 = Some 10"
  "charCodeAt queueCode 45 = None"
  by (simp_all add: charCodeAt_def queueCode_def js_def)

lemma queue_points:
  "codePointAt queueCode 24 = Some 10"
  "codePointAt queueCode 33 = Some 10"
  "codePointAt queueCode 45 = None"
  by (simp_all add: codePointAt_def queue_chars)

lemma queue_slurps:
  "slurpAllWhitespaceLeft queueCode 25 = 25"
  "slurpAllWhitespaceLeft queueCode 36 = 36"
  "slurpSingleNewLineRight queueCode 24 = 25"
  "slurpSingleNewLineRight queueCode 33 = 34"
  "slurpSingleNewLineRight queueCode 45 = 45"
  "isEmptyLine queueCode 0"
  "isEmptyLine queueCode 25"
  "isEmptyLine queueCode 36"
proof -
  show "slurpAllWhitespaceLeft queueCode 25 = 25"
    by (subst slurpAllWhitespaceLeft.simps) (simp add: queue_chars whitespace_def)
  show "slurpAllWhitespaceLeft queueCode 36 = 36"
    by (subst slurpAllWhitespaceLeft.simps) (simp add: queue_chars whitespace_def)
qed (simp_all add: slurpSingleNewLineRight_def queue_points isEmptyLine_def isNewLineChar_def
    queue_chars)

lemma queue_slices:
  "slice queueCode 0 0 = []"
  "slice queueCode 25 25 = []"
  "slice queueCode 34 36 = [0x31, 0x0A]"
  "sliceFrom queueCode 45 = []"
  by (simp_all add: slice_def sliceFrom_def relIndex_def queue_length)
    (simp add: queueCode_def js_def)

lemma queue_emit:
  "emit queueCode [\<lparr>sl_start = 0, sl_end = 24\<rparr>, \<lparr>sl_start = 25, sl_end = 45\<rparr>] [] 0 = []"
  "emit queueCode [\<lparr>sl_start = 0, sl_end = 24\<rparr>, \<lparr>sl_start = 25, sl_end = 33\<rparr>,
           \<lparr>sl_start = 36, sl_end = 45\<rparr>] [] 0 = [0x31, 0x0A]"
  by (simp_all add: Let_def slurp_left_0 queue_slurps queue_slices)

lemma queue_apply:
  "apply queueCode (queueTree (Some (- 1)) (Some (- 1))) = Some []"
  "apply queueCode (queueTree (Some (- 1)) (Some 0)) = Some [0x31, 0x0A]"
  by (simp_all only: apply_def queue_cuts)
    (simp_all add: isEmpty_def queue_emit del: emit.simps)

lemma queue_modes:
  "condComp (queueHost queueComments) queueCode (False, False)
     = (Inr [0x31, 0x0A], (True, False))"
  "condCompSync (queueHost queueComments) queueCode (False, False) = (Inr [], (False, True))"
  by (simp_all add: condComp_def condCompSync_def queue_parse queue_async queue_sync finish_def
      queue_apply)
    (simp add: queueHost_def)

text \<open>
  C10 as stated fails, in two ways. With \<open>A\<close> false the guard \<open>await X\<close> inside the
  \<open>#if A\<close> branch is never evaluated, so no guard of the run suspends: the
  suspension-capable entry point returns the empty text, and the synchronous one fails at
  line 0, column 0, since the host refuses the program as a whole. And where the guard of a
  first block queues a job that sets \<open>A\<close> and is itself a plain \<open>false\<close>, the wait after
  that block runs the job in the suspension-capable program only: the second block, on
  \<open>A\<close>, keeps its line \<open>1\<close> there and loses it in the synchronous one.
\<close>

theorem sync_async_counterexample:
  "condComp (sampleHost sampleComments) sampleCode False = (Inr [], False)
   \<and> condCompSync (sampleHost sampleComments) sampleCode False
       = (Inl (CondCompEvalError 0 0 (Orig 0)), False)
   \<and> parseCode (sampleHost sampleComments) sampleCode = Inr sampleTree
   \<and> map guardOf (steps (snd (snd (evaluateIfs (sampleHost sampleComments) sampleTree False))))
       = [(\<lparr>s_start = 0, s_end = 8, s_line = 1, s_column = 0\<rparr>, js ''A'')]
   \<and> condComp (queueHost queueComments) queueCode (False, False)
       = (Inr (js ''1'' @ [0x0A]), (True, False))
   \<and> condCompSync (queueHost queueComments) queueCode (False, False) = (Inr [], (False, True))
   \<and> parseCode (queueHost queueComments) queueCode = Inr (queueTree None None)
   \<and> map guardOf (steps (snd (snd (evaluateIfs (queueHost queueComments) (queueTree None None)
          (False, False)))))
       = [(\<lparr>s_start = 0, s_end = 14, s_line = 1, s_column = 0\<rparr>, js ''later()''),
          (\<lparr>s_start = 25, s_end = 33, s_line = 3, s_column = 0\<rparr>, js ''A'')]
   \<and> evalGuard (queueHost queueComments) False (js ''later()'') (False, False)
       = (Inr False, (False, True))"
proof -
  from sample_async obtain tr where
    "evaluateIfs (sampleHost sampleComments) sampleTree False
   = (Inr [IfBlock \<lparr>s_start = 0, s_end = 8, s_line = 1, s_column = 0\<rparr> (js ''A'') (Some (- 1))
        (Some [IfBlock \<lparr>s_start = 9, s_end = 23, s_line = 2, s_column = 0\<rparr> (js ''await X'') None
                 None None None \<lparr>s_start = 24, s_end = 33, s_line = 3, s_column = 0\<rparr> False])
        None None \<lparr>s_start = 34, s_end = 43, s_line = 4, s_column = 0\<rparr> False],
      False, tr)"
    and "steps tr = [(\<lparr>s_start = 0, s_end = 8, s_line = 1, s_column = 0\<rparr>, js ''A'', False)]"
    by blast
  then have a: "map guardOf (steps (snd (snd (evaluateIfs (sampleHost sampleComments) sampleTree
      False)))) = [(\<lparr>s_start = 0, s_end = 8, s_line = 1, s_column = 0\<rparr>, js ''A'')]"
    by (simp add: guardOf_def)
  have b: "map guardOf (steps (snd (snd (evaluateIfs (queueHost queueComments)
          (queueTree None None) (False, False)))))
       = [(\<lparr>s_start = 0, s_end = 14, s_line = 1, s_column = 0\<rparr>, js ''later()''),
          (\<lparr>s_start = 25, s_end = 33, s_line = 3, s_column = 0\<rparr>, js ''A'')]"
    by (simp add: queue_async guardOf_def)
  have c: "evalGuard (queueHost queueComments) False (js ''later()'') (False, False)
       = (Inr False, (False, True))"
    by (simp add: queueHost_def queueGuard_def queue_distinct)
  have d: "js ''1'' @ [0x0A] = [0x31, 0x0A]" by (simp add: js_def)
  show ?thesis
    by (simp only: sample_modes sample_parse queue_modes queue_parse a b c d simp_thms)
qed

end
